theory Spec2Isabelle
  imports Complex_Main "HOL-Library.Word"
begin

unbundle bit_operations_syntax

section \<open>Machine types and protocol constants\<close>

text \<open>
  The driver of \<^verbatim>\<open>components/shelly_dimmer/shelly_dimmer.cpp\<close> is embedded
  function by function. Fixed-width integers are words. A \<^verbatim>\<open>float\<close> is modelled by
  the real number it denotes. On the brightness path (\<open>write_state\<close>,
  \<open>convert_brightness\<close>) every float operation is the exact operation followed by the
  rounding \<open>f32\<close> to the nearest binary32 value; infinities and NaN are not values of the
  model, and an operation that would yield one is \<open>Inl FloatNotFinite\<close>. The telemetry
  scaling and the finalisation of the calibration are kept in exact arithmetic. An
  access outside an array is the value \<open>Inl OutOfBounds\<close>, and a float-to-integer
  conversion whose value does not fit is \<open>Inl FloatToIntRange\<close>.
\<close>

type_synonym u8 = "8 word"
type_synonym u16 = "16 word"
type_synonym u32 = "32 word"

datatype fault = OutOfBounds | FloatToIntRange | FloatNotFinite

text \<open>
  \<^verbatim>\<open>constexpr float CALIBRATION_STEP = 0.05f\<close>: the binary32 value nearest to 0.05,
  which is \<open>13421773 / 2 ^ 28\<close>.
\<close>

definition CALIBRATION_STEP :: real where
  "CALIBRATION_STEP = 13421773 / 268435456"

definition SHELLY_DIMMER_ACK_TIMEOUT :: u8 where
  "SHELLY_DIMMER_ACK_TIMEOUT = 200"

definition SHELLY_DIMMER_MAX_RETRIES :: u8 where
  "SHELLY_DIMMER_MAX_RETRIES = 3"

definition SHELLY_DIMMER_PROTO_START_BYTE :: u8 where
  "SHELLY_DIMMER_PROTO_START_BYTE = 0x01"

definition SHELLY_DIMMER_PROTO_END_BYTE :: u8 where
  "SHELLY_DIMMER_PROTO_END_BYTE = 0x04"

definition SHELLY_DIMMER_PROTO_CMD_SWITCH :: u8 where
  "SHELLY_DIMMER_PROTO_CMD_SWITCH = 0x01"

definition SHELLY_DIMMER_PROTO_CMD_POLL :: u8 where
  "SHELLY_DIMMER_PROTO_CMD_POLL = 0x10"

definition SHELLY_DIMMER_PROTO_CMD_VERSION :: u8 where
  "SHELLY_DIMMER_PROTO_CMD_VERSION = 0x11"

definition SHELLY_DIMMER_PROTO_CMD_SETTINGS :: u8 where
  "SHELLY_DIMMER_PROTO_CMD_SETTINGS = 0x20"

definition SHELLY_DIMMER_PROTO_CMD_SWITCH_SIZE :: u8 where
  "SHELLY_DIMMER_PROTO_CMD_SWITCH_SIZE = 2"

definition SHELLY_DIMMER_PROTO_MAX_FRAME_SIZE :: nat where
  "SHELLY_DIMMER_PROTO_MAX_FRAME_SIZE = 4 + 72 + 3"

definition POWER_SCALING_FACTOR :: real where
  "POWER_SCALING_FACTOR = 880373"

definition VOLTAGE_SCALING_FACTOR :: real where
  "VOLTAGE_SCALING_FACTOR = 347800"

definition CURRENT_SCALING_FACTOR :: real where
  "CURRENT_SCALING_FACTOR = 1448"

section \<open>Binary32 arithmetic\<close>

text \<open>
  The binary32 values are the multiples \<open>m * 2 ^ k\<close> with \<open>\<bar>m\<bar> < 2 ^ 24\<close> and
  \<open>- 149 \<le> k \<le> 104\<close>. Around a real \<open>x\<close> with \<open>2 ^ e \<le> \<bar>x\<bar> < 2 ^ (e + 1)\<close> they are
  spaced by \<open>2 ^ (e - 23)\<close>, and by \<open>2 ^ - 149\<close> below \<open>2 ^ - 126\<close> (the subnormal
  numbers). \<open>quantum x\<close> is that spacing: the search starts at \<open>2 ^ 104\<close>, the spacing
  of the largest binade, and halves the candidate \<open>q\<close> until \<open>2 ^ 23 * q \<le> \<bar>x\<bar>\<close>, at
  most 253 times.
\<close>

fun quantum_from :: "nat \<Rightarrow> real \<Rightarrow> real \<Rightarrow> real" where
  "quantum_from 0 q x = q"
| "quantum_from (Suc n) q x = (if 2 ^ 23 * q \<le> \<bar>x\<bar> then q else quantum_from n (q / 2) x)"

definition quantum :: "real \<Rightarrow> real" where
  "quantum x = quantum_from 253 (2 ^ 104) x"

text \<open>Rounding to the nearest integer, a tie going to the even one.\<close>

definition round_even :: "real \<Rightarrow> int" where
  "round_even r =
     (let f = \<lfloor>r\<rfloor>; d = r - of_int f
      in if d < 1 / 2 then f
         else if 1 / 2 < d then f + 1
         else if even f then f else f + 1)"

text \<open>
  \<open>f32 x\<close> is the binary32 value nearest to \<open>x\<close>, ties to even: the result of a float
  operation whose exact result is \<open>x\<close>. From \<open>2 ^ 128 - 2 ^ 103\<close> on the rounding reaches
  \<open>2 ^ 128\<close>, where binary32 has an infinity: \<open>finite32\<close> tells the finite results.
\<close>

definition f32 :: "real \<Rightarrow> real" where
  "f32 x = of_int (round_even (x / quantum x)) * quantum x"

definition finite32 :: "real \<Rightarrow> bool" where
  "finite32 x \<longleftrightarrow> \<bar>x\<bar> < 2 ^ 128"

section \<open>Helpers of the host framework\<close>


text \<open>
  Modelled from the spec: \<^verbatim>\<open>encode_uint16\<close> of the same header, missing from the
  sources. The spec gives the POLL brightness, \<^verbatim>\<open>encode_uint16(payload[3], payload[2])\<close>
  in the source, as \<open>(payload[3] << 8) | payload[2]\<close>: the first argument is the high
  byte.
\<close>

definition encode_uint16 :: "u8 \<Rightarrow> u8 \<Rightarrow> u16" where
  "encode_uint16 msb lsb = push_bit 8 (ucast msb) OR ucast lsb"

text \<open>
  Modelled from the spec: \<^verbatim>\<open>encode_uint32\<close> of the same header, missing from the
  sources. The spec gives each raw reading,
  \<^verbatim>\<open>encode_uint32(payload[7], payload[6], payload[5], payload[4])\<close> in the source, as the
  little-endian 32-bit value of its four bytes: the first argument is the most
  significant byte.
\<close>

definition encode_uint32 :: "u8 \<Rightarrow> u8 \<Rightarrow> u8 \<Rightarrow> u8 \<Rightarrow> u32" where
  "encode_uint32 b3 b2 b1 b0 =
     push_bit 24 (ucast b3) OR push_bit 16 (ucast b2) OR push_bit 8 (ucast b1) OR ucast b0"

text \<open>
  The conversion of a \<^verbatim>\<open>float\<close> to \<^verbatim>\<open>uint16_t\<close> truncates towards zero; C++
  leaves it undefined when the truncated value is not a \<^verbatim>\<open>uint16_t\<close>.
\<close>

definition float_to_u16 :: "real \<Rightarrow> fault + u16" where
  "float_to_u16 x =
     (let t = (if 0 \<le> x then \<lfloor>x\<rfloor> else \<lceil>x\<rceil>)
      in if 0 \<le> t \<and> t \<le> 65535 then Inr (word_of_int t) else Inl FloatToIntRange)"

text \<open>
  Modelled from the spec: the instance \<^verbatim>\<open>remap<float, float>\<close> that \<open>write_state\<close>
  calls, the affine remap of the spec computed in binary32. The spec gives the map, not
  the order of the float operations; they are taken as the template of the framework
  writes them, \<^verbatim>\<open>(value - min) * (max_out - min_out) / (max - min) + min_out\<close>, each
  rounded once. A division by zero, or an operand or result that is not finite, is the
  fault \<open>FloatNotFinite\<close>.
\<close>

definition remap_float :: "real \<Rightarrow> real \<Rightarrow> real \<Rightarrow> real \<Rightarrow> real \<Rightarrow> fault + real" where
  "remap_float v mn mx min_out max_out =
     (let a = f32 (v - mn);
          d = f32 (max_out - min_out);
          p = f32 (a * d);
          w = f32 (mx - mn);
          q = f32 (p / w);
          r = f32 (q + min_out)
      in if w \<noteq> 0 \<and> list_all finite32 [a, d, p, w, q, r] then Inr r
         else Inl FloatNotFinite)"

text \<open>
  Modelled from the spec: the instance \<^verbatim>\<open>remap<uint16_t, float>\<close> that
  \<open>convert_brightness\<close> calls, the same expression with 16-bit output bounds. The
  difference \<^verbatim>\<open>max_out - min_out\<close> is taken in \<^verbatim>\<open>int\<close> after the integer promotions
  and converted to \<^verbatim>\<open>float\<close> for the product, \<^verbatim>\<open>min_out\<close> is converted for the sum,
  and the float result is converted to \<^verbatim>\<open>uint16_t\<close> on return.
\<close>

definition remap_uint16 :: "real \<Rightarrow> real \<Rightarrow> real \<Rightarrow> u16 \<Rightarrow> u16 \<Rightarrow> fault + u16" where
  "remap_uint16 v mn mx min_out max_out =
     (let a = f32 (v - mn);
          d = f32 (of_int (uint max_out - uint min_out));
          p = f32 (a * d);
          w = f32 (mx - mn);
          q = f32 (p / w);
          r = f32 (q + f32 (of_int (uint min_out)))
      in if w \<noteq> 0 \<and> list_all finite32 [a, d, p, w, q, r] then float_to_u16 r
         else Inl FloatNotFinite)"

text \<open>\<^verbatim>\<open>std::memcpy(dst + off, src, n)\<close> on arrays held as lists.\<close>

definition memcpy :: "u8 list \<Rightarrow> nat \<Rightarrow> u8 list \<Rightarrow> nat \<Rightarrow> u8 list" where
  "memcpy dst off src n = take off dst @ take n src @ drop (off + n) dst"

section \<open>Driver state\<close>

text \<open>
  Modelled from the spec: the class declaration (\<^verbatim>\<open>shelly_dimmer.h\<close>) is not part of
  the sources, so the types of the members follow the spec's driver state: the sequence
  counter is a byte that wraps, the brightness values are 16-bit, the calibration table
  holds 20 floats. The buffer position is a byte, as the local it is copied to in
  \<open>handle_byte\<close>. The receive buffer \<open>buffer\<close> is an array whose size is the constant
  \<^verbatim>\<open>SHELLY_DIMMER_BUFFER_SIZE\<close> of that declaration; its value is not assumed: the
  size is the parameter \<open>bsz\<close> of every function that reads it, and the length of the
  list. Members and member functions are named as in the source, without the trailing
  underscore.

  A sensor is the history of the states published to it, the latest last; a sensor
  pointer may be null. The preference slot \<open>rtc\<close> holds the table last saved,
  \<open>light_calls\<close> the brightness requests made to the light state and \<open>update_interval\<close>
  the interval of the poller.
\<close>

type_synonym sensor = "real list"

record driver =
  ready :: bool
  seq :: u8
  buffer :: "u8 list"
  buffer_pos :: u8
  version_major :: u8
  version_minor :: u8
  brightness :: u16
  min_brightness :: u16
  max_brightness :: u16
  power_sensor :: "sensor option"
  voltage_sensor :: "sensor option"
  current_sensor :: "sensor option"
  calibrating :: bool
  calibration_data :: "real list"
  update_interval_original :: u32
  update_interval :: u32
  rtc :: "real list option"
  light_calls :: "real list"

definition publish_state :: "real \<Rightarrow> sensor option \<Rightarrow> sensor option" where
  "publish_state v p = (case p of None \<Rightarrow> None | Some h \<Rightarrow> Some (h @ [v]))"

section \<open>Checksum and framing\<close>

text \<open>
  \<^verbatim>\<open>std::accumulate<..., uint16_t>(buf, buf + len, 0)\<close>: a 16-bit accumulator, every
  byte widened and added, wrapping at \<open>2 ^ 16\<close>. The caller passes the \<open>len\<close> bytes
  from \<open>buf\<close> on.
\<close>

definition shelly_dimmer_checksum :: "u8 list \<Rightarrow> u16" where
  "shelly_dimmer_checksum buf = fold (\<lambda>b acc. acc + ucast b) buf 0"

text \<open>
  \<open>frame_command\<close> fills the caller's array \<open>data\<close> and returns the array, the number
  of bytes written and the driver with its sequence counter advanced. A null payload
  is \<open>None\<close>. The array is the caller's uninitialised local, so its first contents are
  arbitrary.
\<close>

definition frame_command ::
  "driver \<Rightarrow> u8 list \<Rightarrow> u8 \<Rightarrow> u8 list option \<Rightarrow> nat \<Rightarrow> fault + (u8 list \<times> nat \<times> driver)" where
  "frame_command s data cmd payload len =
     (if (case payload of
            None \<Rightarrow> length data < 7 \<or> length data < 4 + len
          | Some p \<Rightarrow> length p < len \<or> length data < 4 + len + 3)
      then Inl OutOfBounds
      else
        let s1 = s\<lparr>seq := seq s + 1\<rparr>;
            d1 = data[0 := SHELLY_DIMMER_PROTO_START_BYTE, 1 := seq s1, 2 := cmd,
                      3 := of_nat len];
            (d2, pos) = (case payload of
                           None \<Rightarrow> (d1, 4)
                         | Some p \<Rightarrow> (memcpy d1 4 p len, 4 + len));
            csum = shelly_dimmer_checksum (take (3 + len) (drop 1 d2));
            d3 = d2[pos := ucast (drop_bit 8 csum), pos + 1 := ucast (csum AND 0xff),
                    pos + 2 := SHELLY_DIMMER_PROTO_END_BYTE]
        in Inr (d3, pos + 3, s1))"

text \<open>
  The per-byte classifier: \<open>1\<close> asks for more data, \<open>-1\<close> resets the parser and \<open>0\<close>
  completes a frame. The byte \<open>c\<close> has already been stored at \<open>buffer[buffer_pos]\<close>.
  The comparisons are made on promoted integers, so they do not wrap.
\<close>

definition handle_byte :: "nat \<Rightarrow> driver \<Rightarrow> u8 \<Rightarrow> int" where
  "handle_byte bsz s c =
     (let pos = buffer_pos s in
      if pos = 0 then (if c = SHELLY_DIMMER_PROTO_START_BYTE then 1 else - 1)
      else if pos < 4 then 1
      else
        let payload_len = buffer s ! 3 in
        if 4 + unat payload_len + 3 > bsz then - 1
        else if unat pos < 4 + unat payload_len + 1 then 1
        else if unat pos = 4 + unat payload_len + 1 then
          (let csum = (push_bit 8 (ucast (buffer s ! (unat pos - 1))) OR ucast c :: u16);
               csum_verify =
                 shelly_dimmer_checksum (take (3 + unat payload_len) (drop 1 (buffer s)))
           in if csum \<noteq> csum_verify then - 1 else 1)
        else if unat pos = 4 + unat payload_len + 2 then
          (if c = SHELLY_DIMMER_PROTO_END_BYTE then 0 else - 1)
        else - 1)"

text \<open>
  The fields a POLL response is decoded into. In the source they are locals of
  \<open>handle_frame\<close>; the argument is the payload, that is the buffer from byte 4 on.
\<close>

record poll_data =
  hw_version :: u8
  poll_brightness :: u16
  power_raw :: u32
  voltage_raw :: u32
  current_raw :: u32
  fade_rate :: u16

definition decode_poll :: "u8 list \<Rightarrow> poll_data" where
  "decode_poll payload =
     \<lparr>hw_version = payload ! 0,
      poll_brightness = encode_uint16 (payload ! 3) (payload ! 2),
      power_raw = encode_uint32 (payload ! 7) (payload ! 6) (payload ! 5) (payload ! 4),
      voltage_raw = encode_uint32 (payload ! 11) (payload ! 10) (payload ! 9) (payload ! 8),
      current_raw = encode_uint32 (payload ! 15) (payload ! 14) (payload ! 13) (payload ! 12),
      fade_rate = ucast (payload ! 16)\<rparr>"

definition scaled :: "real \<Rightarrow> u32 \<Rightarrow> real" where
  "scaled factor raw = (if raw > 0 then factor / real (unat raw) else 0)"

definition handle_frame :: "driver \<Rightarrow> bool \<times> driver" where
  "handle_frame s =
     (let seq' = buffer s ! 1;
          cmd = buffer s ! 2;
          payload_len = buffer s ! 3
      in
      if seq' \<noteq> seq s then (False, s)
      else
        let payload = drop 4 (buffer s) in
        if cmd = SHELLY_DIMMER_PROTO_CMD_POLL then
          (if payload_len < 16 then (False, s)
           else
             let d = decode_poll payload;
                 power = scaled POWER_SCALING_FACTOR (power_raw d);
                 voltage = scaled VOLTAGE_SCALING_FACTOR (voltage_raw d);
                 current = scaled CURRENT_SCALING_FACTOR (current_raw d)
             in (True, s\<lparr>power_sensor := publish_state power (power_sensor s),
                          voltage_sensor := publish_state voltage (voltage_sensor s),
                          current_sensor := publish_state current (current_sensor s)\<rparr>))
        else if cmd = SHELLY_DIMMER_PROTO_CMD_VERSION then
          (if payload_len < 2 then (False, s)
           else (True, s\<lparr>version_minor := payload ! 0, version_major := payload ! 1\<rparr>))
        else if cmd = SHELLY_DIMMER_PROTO_CMD_SWITCH \<or> cmd = SHELLY_DIMMER_PROTO_CMD_SETTINGS then
          (\<not> (payload_len < 1 \<or> payload ! 0 \<noteq> 0x01), s)
        else (False, s))"

text \<open>
  One round of the loop of \<open>read_frame\<close>: store the byte, classify it, act on the
  class. The result of \<open>handle_frame\<close> is dropped, as in the source.
\<close>

definition read_frame_step :: "nat \<Rightarrow> driver \<Rightarrow> u8 \<Rightarrow> fault + (int \<times> driver)" where
  "read_frame_step bsz s c =
     (if length (buffer s) \<le> unat (buffer_pos s) then Inl OutOfBounds
      else
        let s1 = s\<lparr>buffer := (buffer s)[unat (buffer_pos s) := c]\<rparr>;
            r = handle_byte bsz s1 c
        in if r = 0 then Inr (r, (snd (handle_frame s1))\<lparr>buffer_pos := 0\<rparr>)
           else if r = - 1 then Inr (r, s1\<lparr>buffer_pos := 0\<rparr>)
           else Inr (r, s1\<lparr>buffer_pos := buffer_pos s1 + 1\<rparr>))"

text \<open>
  \<open>read_frame\<close> drains the bytes the UART holds (\<open>rx\<close>) until a frame completes; it
  returns whether one did, the driver and the bytes left unread.
\<close>

fun read_frame :: "nat \<Rightarrow> driver \<Rightarrow> u8 list \<Rightarrow> fault + (bool \<times> driver \<times> u8 list)" where
  "read_frame bsz s [] = Inr (False, s, [])"
| "read_frame bsz s (c # rx) =
     (case read_frame_step bsz s c of
        Inl f \<Rightarrow> Inl f
      | Inr (r, s') \<Rightarrow> if r = 0 then Inr (True, s', rx) else read_frame bsz s' rx)"

section \<open>The UART, the clock and the acknowledged send\<close>

text \<open>
  The world outside the driver: the bytes the UART has received and the driver has not
  read yet (\<open>rx\<close>), the bytes that will arrive during each coming millisecond
  (\<open>wire\<close>), what the driver has written and flushed (\<open>tx\<close>) and the millisecond
  clock (\<open>now\<close>, a wrapping 32-bit counter). Time passes only in \<^verbatim>\<open>delay(1)\<close>:
  the clock advances by one and the bytes of that millisecond arrive.
\<close>

datatype uart_event = Write "u8 list" | Flush

record env =
  rx :: "u8 list"
  wire :: "u8 list list"
  tx :: "uart_event list"
  now :: u32

definition delay_1ms :: "env \<Rightarrow> env" where
  "delay_1ms e =
     e\<lparr>rx := rx e @ (case wire e of [] \<Rightarrow> [] | b # _ \<Rightarrow> b),
       wire := (case wire e of [] \<Rightarrow> [] | _ # w \<Rightarrow> w),
       now := now e + 1\<rparr>"

text \<open>
  The inner loop of \<open>send_command\<close>:
  \<^verbatim>\<open>while (millis() - tx_time < SHELLY_DIMMER_ACK_TIMEOUT) { if (read_frame_()) return true; delay(1); }\<close>.
  The first component of the result tells whether the loop left through \<^verbatim>\<open>return true\<close>.
\<close>

function ack_wait :: "nat \<Rightarrow> u32 \<Rightarrow> driver \<Rightarrow> env \<Rightarrow> fault + (bool \<times> driver \<times> env)" where
  "ack_wait bsz tx_time s e =
     (if now e - tx_time < ucast SHELLY_DIMMER_ACK_TIMEOUT then
        (case read_frame bsz s (rx e) of
           Inl f \<Rightarrow> Inl f
         | Inr (got, s', rx') \<Rightarrow>
             if got then Inr (True, s', e\<lparr>rx := rx'\<rparr>)
             else ack_wait bsz tx_time s' (delay_1ms (e\<lparr>rx := rx'\<rparr>)))
      else Inr (False, s, e))"
  by pat_completeness auto
termination
proof (relation "measure (\<lambda>(bsz, tx_time, s, e). 200 - unat (now e - tx_time))")
  show "wf (measure (\<lambda>(bsz, tx_time, s, e). 200 - unat (now e - tx_time)))"
    by simp
next
  fix bsz :: nat and tx_time :: u32 and s :: driver and e :: env
    and x :: "bool \<times> driver \<times> u8 list" and got :: bool and y :: "driver \<times> u8 list"
    and s' :: driver and rx' :: "u8 list"
  assume lt: "now e - tx_time < ucast SHELLY_DIMMER_ACK_TIMEOUT"
  have small: "unat (now e - tx_time) < 200"
    using lt by (simp add: SHELLY_DIMMER_ACK_TIMEOUT_def word_less_nat_alt)
  then have suc: "unat (now e - tx_time + 1) = unat (now e - tx_time) + 1"
    by (simp add: unat_word_ariths)
  have eq: "now (delay_1ms (e\<lparr>rx := rx'\<rparr>)) - tx_time = now e - tx_time + 1"
    by (simp add: delay_1ms_def)
  show "((bsz, tx_time, s', delay_1ms (e\<lparr>rx := rx'\<rparr>)), (bsz, tx_time, s, e))
      \<in> measure (\<lambda>(bsz, tx_time, s, e). 200 - unat (now e - tx_time))"
    using small by (simp only: in_measure prod.case eq suc)
qed

declare ack_wait.simps [simp del]

text \<open>
  The outer loop, \<^verbatim>\<open>int retries = SHELLY_DIMMER_MAX_RETRIES; while (retries--) { ... }\<close>:
  the argument counts the attempts left. Every attempt writes the frame, flushes and
  waits for the acknowledgement.
\<close>

fun send_attempts ::
  "nat \<Rightarrow> nat \<Rightarrow> u8 list \<Rightarrow> driver \<Rightarrow> env \<Rightarrow> fault + (bool \<times> driver \<times> env)" where
  "send_attempts bsz 0 frame s e = Inr (False, s, e)"
| "send_attempts bsz (Suc retries) frame s e =
     (let e1 = e\<lparr>tx := tx e @ [Write frame, Flush]\<rparr>;
          tx_time = now e1
      in case ack_wait bsz tx_time s e1 of
           Inl f \<Rightarrow> Inl f
         | Inr (acked, s', e') \<Rightarrow>
             if acked then Inr (True, s', e') else send_attempts bsz retries frame s' e')"

text \<open>
  \<open>send_command\<close>. Its frame is a local array of \<open>SHELLY_DIMMER_PROTO_MAX_FRAME_SIZE\<close>
  bytes that is not initialised: \<open>junk\<close> gives its first contents.
\<close>

definition send_command ::
  "nat \<Rightarrow> (nat \<Rightarrow> u8) \<Rightarrow> driver \<Rightarrow> env \<Rightarrow> u8 \<Rightarrow> u8 list option \<Rightarrow> u8
     \<Rightarrow> fault + (bool \<times> driver \<times> env)" where
  "send_command bsz junk s e cmd payload len =
     (let frame = map junk [0..<SHELLY_DIMMER_PROTO_MAX_FRAME_SIZE]
      in case frame_command s frame cmd payload (unat len) of
           Inl f \<Rightarrow> Inl f
         | Inr (frame', frame_len, s1) \<Rightarrow>
             send_attempts bsz (unat SHELLY_DIMMER_MAX_RETRIES) (take frame_len frame') s1 e)"

section \<open>Brightness\<close>

definition convert_brightness :: "driver \<Rightarrow> real \<Rightarrow> fault + u16" where
  "convert_brightness s b =
     (if b = 0 then Inr 0
      else remap_uint16 b 0 1 (min_brightness s) (max_brightness s))"

definition send_brightness ::
  "nat \<Rightarrow> (nat \<Rightarrow> u8) \<Rightarrow> driver \<Rightarrow> env \<Rightarrow> u16 \<Rightarrow> fault + (driver \<times> env)" where
  "send_brightness bsz junk s e b =
     (let payload = [ucast (b AND 0xff), ucast (drop_bit 8 b)]
      in case send_command bsz junk s e SHELLY_DIMMER_PROTO_CMD_SWITCH (Some payload)
                SHELLY_DIMMER_PROTO_CMD_SWITCH_SIZE of
           Inl f \<Rightarrow> Inl f
         | Inr (acked, s', e') \<Rightarrow> Inr (s'\<lparr>brightness := b\<rparr>, e'))"

text \<open>
  The search loop of \<open>write_state\<close>:
  \<^verbatim>\<open>for (pos = 0; pos < size; ++pos) if (calibration_data_[pos] < brightness) break;\<close>
\<close>

function calibration_pos :: "real list \<Rightarrow> real \<Rightarrow> nat \<Rightarrow> nat" where
  "calibration_pos tbl b pos =
     (if pos < length tbl then
        (if tbl ! pos < b then pos else calibration_pos tbl b (pos + 1))
      else pos)"
  by pat_completeness auto
termination
  by (relation "measure (\<lambda>(tbl, b, pos). length tbl - pos)") auto

declare calibration_pos.simps [simp del]

text \<open>
  The brightness \<open>write_state\<close> passes on to \<open>convert_brightness\<close>: the block that
  consults the calibration table.
  \<^verbatim>\<open>float min_out = 1 - (float) pos * CALIBRATION_STEP\<close> is a conversion, a product and
  a difference, \<^verbatim>\<open>float max_out = min_out + CALIBRATION_STEP\<close> a sum.
\<close>

definition calibrated_brightness :: "driver \<Rightarrow> real \<Rightarrow> fault + real" where
  "calibrated_brightness s b =
     (if \<not> calibrating s \<and> calibration_data s ! 0 \<noteq> 0 \<and> b \<noteq> 0 \<and> b \<noteq> 1 then
        let pos = calibration_pos (calibration_data s) b 0 in
        if pos = length (calibration_data s) \<or> pos = 0 then Inr b
        else
          let mn = calibration_data s ! pos;
              mx = calibration_data s ! (pos - 1);
              min_out = f32 (1 - f32 (f32 (real pos) * CALIBRATION_STEP));
              max_out = f32 (min_out + CALIBRATION_STEP)
          in remap_float b mn mx min_out max_out
      else Inr b)"

text \<open>
  \<open>write_state\<close>; \<open>light\<close> is the brightness the light state reports
  (\<^verbatim>\<open>current_values_as_brightness\<close>).
\<close>

definition write_state ::
  "nat \<Rightarrow> (nat \<Rightarrow> u8) \<Rightarrow> driver \<Rightarrow> env \<Rightarrow> real \<Rightarrow> fault + (driver \<times> env)" where
  "write_state bsz junk s e light =
     (if \<not> ready s then Inr (s, e)
      else
        case calibrated_brightness s light of
          Inl f \<Rightarrow> Inl f
        | Inr b \<Rightarrow>
            (case convert_brightness s b of
               Inl f \<Rightarrow> Inl f
             | Inr brightness_int \<Rightarrow>
                 if brightness_int = brightness s then Inr (s, e)
                 else send_brightness bsz junk s e brightness_int))"

section \<open>Calibration\<close>


section \<open>Notions used in the statements\<close>

text \<open>The bytes of a frame, as the data model lists them.\<close>

definition frame_bytes :: "u8 \<Rightarrow> u8 \<Rightarrow> u8 list \<Rightarrow> u8 list" where
  "frame_bytes q cmd p =
     (let csum = shelly_dimmer_checksum ([q, cmd, of_nat (length p)] @ p)
      in [SHELLY_DIMMER_PROTO_START_BYTE, q, cmd, of_nat (length p)] @ p @
         [ucast (drop_bit 8 csum), ucast (csum AND 0xff), SHELLY_DIMMER_PROTO_END_BYTE])"

text \<open>
  The parser after a stream of bytes, whatever the calls of \<open>read_frame\<close> that
  consumed them: the loop body, byte after byte.
\<close>

fun feed :: "nat \<Rightarrow> driver \<Rightarrow> u8 list \<Rightarrow> fault + driver" where
  "feed bsz s [] = Inr s"
| "feed bsz s (c # cs) =
     (case read_frame_step bsz s c of
        Inl f \<Rightarrow> Inl f
      | Inr (r, s') \<Rightarrow> feed bsz s' cs)"

text \<open>
  The invariant of the parser: the position is within the header, or the length byte
  has passed the size check and the position is within the frame it announces.
\<close>

definition parser_inv :: "nat \<Rightarrow> driver \<Rightarrow> bool" where
  "parser_inv bsz s \<longleftrightarrow>
     length (buffer s) = bsz \<and> 5 \<le> bsz \<and>
     (unat (buffer_pos s) \<le> 4 \<or>
      4 + unat (buffer s ! 3) + 3 \<le> bsz \<and> unat (buffer_pos s) \<le> 4 + unat (buffer s ! 3) + 2)"

text \<open>
  The parser has taken the first \<open>k\<close> bytes of the frame \<open>F\<close> and waits for the next.
\<close>

definition receiving :: "nat \<Rightarrow> driver \<Rightarrow> u8 list \<Rightarrow> nat \<Rightarrow> bool" where
  "receiving bsz r F k \<longleftrightarrow>
     length (buffer r) = bsz \<and> buffer_pos r = of_nat k \<and> take k (buffer r) = take k F"

text \<open>A driver with every member zero, null or empty, and a receive buffer of \<open>bsz\<close> bytes.\<close>

definition blank_driver :: "nat \<Rightarrow> driver" where
  "blank_driver bsz =
     \<lparr>ready = False, seq = 0, buffer = replicate bsz 0, buffer_pos = 0,
      version_major = 0, version_minor = 0, brightness = 0,
      min_brightness = 0, max_brightness = 0,
      power_sensor = None, voltage_sensor = None, current_sensor = None,
      calibrating = False, calibration_data = replicate 20 0,
      update_interval_original = 0, update_interval = 0,
      rtc = None, light_calls = []\<rparr>"

text \<open>
  A POLL response with a payload of 16 bytes, one short of the 17 the decoder reads, for
  a driver whose sequence counter is 1 and whose three sensors are present.
\<close>

definition poll16_frame :: "u8 list" where
  "poll16_frame = [0x01, 0x01, 0x10, 0x10,
             0x01, 0x00, 0xE8, 0x03, 0x00, 0x00, 0x01, 0x00, 0x00, 0x00, 0x01, 0x00,
             0x00, 0x00, 0x01, 0x00,
             0x01, 0x10, 0x04]"

definition poll16_driver :: driver where
  "poll16_driver = (blank_driver 79)\<lparr>seq := 1, power_sensor := Some [],
                        voltage_sensor := Some [], current_sensor := Some []\<rparr>"

text \<open>
  A calibrated driver with the brightness range 0 to 1000, whose table holds sixteenths,
  and a driver whose twenty step means have just been measured.
\<close>

definition calibrated_driver :: driver where
  "calibrated_driver =
     (blank_driver 79)\<lparr>ready := True, max_brightness := 1000,
        calibration_data := [1, 15/16, 14/16, 13/16, 12/16, 11/16, 10/16, 9/16, 8/16, 7/16,
                             6/16, 5/16, 4/16, 3/16, 2/16, 1/16, 0, 0, 0, 0]\<rparr>"


text \<open>
  The payloads the driver passes to \<open>send_command\<close>: a null pointer with length 0, or
  an array of at most 72 bytes with its length; and the bytes of such a payload.
\<close>

definition valid_payload :: "u8 list option \<Rightarrow> u8 \<Rightarrow> bool" where
  "valid_payload payload len =
     (case payload of None \<Rightarrow> len = 0 | Some p \<Rightarrow> unat len = length p \<and> length p \<le> 72)"

definition payload_bytes :: "u8 list option \<Rightarrow> u8 list" where
  "payload_bytes payload = (case payload of None \<Rightarrow> [] | Some p \<Rightarrow> p)"

text \<open>
  A well-formed frame with a valid checksum and the sequence number 7: an acknowledgement
  of some earlier SWITCH.
\<close>

definition stale_ack :: "u8 list" where
  "stale_ack = [0x01, 0x07, 0x01, 0x01, 0x01, 0x00, 0x0A, 0x04]"

definition quiet_env :: env where
  "quiet_env = \<lparr>rx = [], wire = [], tx = [], now = 0\<rparr>"

section \<open>Words and lists\<close>

lemma unat_u16_lt: "unat (a :: u16) < 65536"
  using unsigned_less [of a, where ?'a = nat] by simp

lemma unat_u8_lt: "unat (a :: u8) < 256"
  using unsigned_less [of a, where ?'a = nat] by simp

lemma unat_ucast_u8_u16: "unat (ucast (x :: u8) :: u16) = unat x"
  using unat_u8_lt [of x] by (simp add: unsigned_ucast_eq take_bit_eq_mod)

lemma unat_checksum_aux: "unat (fold (\<lambda>b acc. acc + ucast b) (xs :: u8 list) (a :: u16)) = (unat a + sum_list (map unat xs)) mod 65536"
proof (induction xs arbitrary: a)
  case Nil
  show ?case using unat_u16_lt [of a] by simp
next
  case (Cons x xs)
  have step: "unat (a + ucast x) = (unat a + unat x) mod 65536"
    by (simp add: unat_word_ariths unat_ucast_u8_u16)
  have "unat (fold (\<lambda>b acc. acc + ucast b) (x # xs) a) = (unat (a + ucast x) + sum_list (map unat xs)) mod 65536"
    by (simp add: Cons.IH)
  also have "\<dots> = ((unat a + unat x) + sum_list (map unat xs)) mod 65536"
    unfolding step by (rule mod_add_left_eq)
  finally show ?case by (simp add: add.assoc)
qed

lemma ff_mask: "(0xff :: u16) = mask 8"
  by (simp add: mask_eq_exp_minus_1)

lemma csum_split: "push_bit 8 (ucast (ucast (drop_bit 8 c) :: u8)) OR ucast (ucast (c AND 0xff) :: u8) = (c :: u16)"
  unfolding ff_mask
  apply (rule bit_word_eqI)
  apply (auto simp: bit_simps)
  done

lemma split_front4:
  assumes "4 \<le> length (xs :: 'a list)"
  obtains a b c d rest where "xs = a # b # c # d # rest"
proof -
  from assms obtain a r1 where 1: "xs = a # r1" by (cases xs) auto
  with assms obtain b r2 where 2: "r1 = b # r2" by (cases r1) auto
  with 1 assms obtain c r3 where 3: "r2 = c # r3" by (cases r2) auto
  with 1 2 assms obtain d r4 where 4: "r3 = d # r4" by (cases r3) auto
  from 1 2 3 4 that show thesis by blast
qed

lemma split_front3:
  assumes "3 \<le> length (xs :: 'a list)"
  obtains a b c rest where "xs = a # b # c # rest"
proof -
  from assms obtain a r1 where 1: "xs = a # r1" by (cases xs) auto
  with assms obtain b r2 where 2: "r1 = b # r2" by (cases r1) auto
  with 1 assms obtain c r3 where 3: "r2 = c # r3" by (cases r2) auto
  from 1 2 3 that show thesis by blast
qed

section \<open>Binary32 rounding\<close>

lemma quantum_from_hit: "2 ^ 23 * q \<le> \<bar>x\<bar> \<Longrightarrow> quantum_from n q x = q"
  by (cases n) simp_all

lemma quantum_from_down:
  assumes lo: "2 ^ 23 * q \<le> \<bar>x\<bar>" and hi: "\<bar>x\<bar> < 2 ^ 24 * q" and q: "0 < q"
  shows "j \<le> n \<Longrightarrow> quantum_from n (q * 2 ^ j) x = q"
proof (induction j arbitrary: n)
  case 0
  then show ?case using quantum_from_hit [OF lo] by simp
next
  case (Suc j)
  then obtain m where n: "n = Suc m" and jm: "j \<le> m" by (cases n) auto
  have "(2 :: real) \<le> 2 ^ Suc j" by simp
  then have "2 ^ 24 * q \<le> 2 ^ 23 * (q * 2 ^ Suc j)"
    using q by (simp add: mult_le_cancel_left_pos)
  with hi have miss: "\<not> 2 ^ 23 * (q * 2 ^ Suc j) \<le> \<bar>x\<bar>" by linarith
  have "quantum_from n (q * 2 ^ Suc j) x = quantum_from m (q * 2 ^ Suc j / 2) x"
    unfolding n using miss by (simp del: power_Suc)
  also have "q * 2 ^ Suc j / 2 = q * 2 ^ j" by simp
  finally show ?case using Suc.IH [OF jm] by simp
qed

lemma quantum_eq:
  assumes "j \<le> 253" and "2 ^ 23 * (2 ^ 104 / 2 ^ j) \<le> \<bar>x\<bar>" and "\<bar>x\<bar> < 2 ^ 24 * (2 ^ 104 / 2 ^ j)"
  shows "quantum x = 2 ^ 104 / 2 ^ j"
proof -
  have "0 < (2 :: real) ^ 104 / 2 ^ j" by simp
  from quantum_from_down [OF assms(2,3) this assms(1)]
  show ?thesis by (simp add: quantum_def)
qed

lemma f32_eval:
  assumes "j \<le> 253" and "2 ^ 23 * (2 ^ 104 / 2 ^ j) \<le> \<bar>x\<bar>" and "\<bar>x\<bar> < 2 ^ 24 * (2 ^ 104 / 2 ^ j)"
  shows "f32 x = of_int (round_even (x / (2 ^ 104 / 2 ^ j))) * (2 ^ 104 / 2 ^ j)"
  by (simp only: f32_def quantum_eq [OF assms])

lemma quantum_from_shape:
  "\<exists>j \<le> n. quantum_from n q x = q / 2 ^ j \<and> (j < n \<longrightarrow> 2 ^ 23 * (q / 2 ^ j) \<le> \<bar>x\<bar>)"
proof (induction n arbitrary: q)
  case 0
  then show ?case by simp
next
  case (Suc n)
  show ?case
  proof (cases "2 ^ 23 * q \<le> \<bar>x\<bar>")
    case True
    then show ?thesis by (intro exI [of _ 0]) simp
  next
    case False
    from Suc.IH [of "q / 2"] obtain j where j: "j \<le> n"
      and r: "quantum_from n (q / 2) x = q / 2 / 2 ^ j"
      and h: "j < n \<longrightarrow> 2 ^ 23 * (q / 2 / 2 ^ j) \<le> \<bar>x\<bar>"
      by blast
    show ?thesis
      using False j r h by (intro exI [of _ "Suc j"]) simp
  qed
qed

lemma round_even_int: "round_even (of_int m) = m"
  by (simp add: round_even_def)

lemma f32_int:
  assumes "\<bar>n\<bar> < 2 ^ 24"
  shows "f32 (of_int n) = of_int n"
proof -
  let ?x = "of_int n :: real"
  from quantum_from_shape [of 253 "2 ^ 104" ?x]
  obtain j where j: "j \<le> 253" and q: "quantum ?x = 2 ^ 104 / 2 ^ j"
    and h: "j < 253 \<longrightarrow> 2 ^ 23 * (2 ^ 104 / 2 ^ j) \<le> \<bar>?x\<bar>"
    by (auto simp add: quantum_def)
  have x: "\<bar>?x\<bar> < 2 ^ 24"
    using assms by (metis of_int_abs of_int_less_numeral_power_cancel_iff)
  have big: "104 \<le> j"
  proof (rule ccontr)
    assume "\<not> 104 \<le> j"
    then have lt: "j < 104" by simp
    have "(2 :: real) ^ 104 / 2 ^ j = 2 ^ (104 - j)"
      using lt by (simp add: power_diff)
    moreover have "(2 :: real) ^ 1 \<le> 2 ^ (104 - j)"
      using lt by (intro power_increasing) simp_all
    ultimately have "(2 :: real) \<le> 2 ^ 104 / 2 ^ j" by simp
    then have "(2 :: real) ^ 24 \<le> 2 ^ 23 * (2 ^ 104 / 2 ^ j)" by simp
    moreover have "2 ^ 23 * (2 ^ 104 / 2 ^ j) \<le> \<bar>?x\<bar>" using h lt by simp
    ultimately show False using x by linarith
  qed
  define d where "d = j - 104"
  have d: "j = 104 + d" using big by (simp add: d_def)
  have qd: "quantum ?x = 1 / 2 ^ d"
    unfolding q d by (simp add: power_add)
  have "?x / quantum ?x = of_int (n * 2 ^ d)"
    unfolding qd by simp
  then have "round_even (?x / quantum ?x) = n * 2 ^ d"
    by (simp only: round_even_int)
  then show ?thesis
    unfolding f32_def by (simp add: qd)
qed









lemma f32_zero: "f32 0 = 0"
  using f32_int [of 0] by simp


lemma f32_nat: "n < 2 ^ 24 \<Longrightarrow> f32 (real n) = real n"
  using f32_int [of "int n"] by simp

lemma calibration_step_rounded: "f32 (5 / 100) = CALIBRATION_STEP"
  by (simp add: CALIBRATION_STEP_def f32_eval [where j = 132] round_even_def)

section \<open>Framing\<close>

lemma frame_command_Some:
  assumes len: "length p = len" and fits: "4 + len + 3 \<le> length data"
  shows "\<exists>frame. frame_command s data cmd (Some p) len = Inr (frame, 7 + len, s\<lparr>seq := seq s + 1\<rparr>)
           \<and> take (7 + len) frame = frame_bytes (seq s + 1) cmd p \<and> length frame = length data"
proof -
  from fits have "4 \<le> length data" by simp
  then obtain a b c d rest where data: "data = a # b # c # d # rest"
    by (rule split_front4)
  with fits have "3 \<le> length (drop len rest)" by simp
  then obtain x y z tail where tl: "drop len rest = x # y # z # tail"
    by (rule split_front3)
  have lr: "length rest = len + 3 + length tail"
    using arg_cong [OF tl, of length] fits data by simp
  define q where "q = seq s + 1"
  define hdr where "hdr = [SHELLY_DIMMER_PROTO_START_BYTE, q, cmd, of_nat len :: u8]"
  define csum where "csum = shelly_dimmer_checksum ([q, cmd, of_nat len] @ p)"
  have lh: "length hdr = 4" by (simp add: hdr_def)
  have d1: "data[0 := SHELLY_DIMMER_PROTO_START_BYTE, 1 := seq (s\<lparr>seq := seq s + 1\<rparr>), 2 := cmd,
                 3 := of_nat len] = hdr @ rest"
    by (simp add: data hdr_def q_def numeral_2_eq_2 numeral_3_eq_3)
  have d2: "memcpy (hdr @ rest) 4 p len = hdr @ p @ x # y # z # tail"
    using len by (simp add: memcpy_def lh tl)
  have cs: "shelly_dimmer_checksum (take (3 + len) (drop 1 (hdr @ p @ x # y # z # tail))) = csum"
    using len by (simp add: hdr_def csum_def numeral_3_eq_3)
  have upd: "(hdr @ p @ x # y # z # tail)[4 + len := h, 4 + len + 1 := l, 4 + len + 2 := e]
              = hdr @ p @ h # l # e # tail" for h l e
    using len by (simp add: lh list_update_append numeral_2_eq_2)
  have eq: "frame_command s data cmd (Some p) len =
      Inr (hdr @ p @ ucast (drop_bit 8 csum) # ucast (csum AND 0xff) # SHELLY_DIMMER_PROTO_END_BYTE # tail,
           4 + len + 3, s\<lparr>seq := seq s + 1\<rparr>)"
    unfolding frame_command_def Let_def d1 option.case d2 prod.case cs upd
    using len fits by simp
  have tk: "take (7 + len) (hdr @ p @ h # l # e # tail) = hdr @ p @ [h, l, e]" for h l e
    using len by (simp add: lh)
  have ln: "length (hdr @ p @ h # l # e # tail) = length data" for h l e
    using len by (simp add: lh data lr)
  define frame where "frame = hdr @ p @ ucast (drop_bit 8 csum) # ucast (csum AND 0xff) #
      SHELLY_DIMMER_PROTO_END_BYTE # tail"
  have "frame_command s data cmd (Some p) len = Inr (frame, 7 + len, s\<lparr>seq := seq s + 1\<rparr>)"
    using eq by (simp add: frame_def add.commute)
  moreover have "take (7 + len) frame = frame_bytes (seq s + 1) cmd p"
    unfolding frame_def tk by (simp add: frame_bytes_def Let_def hdr_def csum_def q_def len)
  moreover have "length frame = length data"
    unfolding frame_def by (rule ln)
  ultimately show ?thesis by blast
qed

lemma frame_command_None:
  assumes "7 \<le> length data"
  shows "frame_command s data cmd None 0 = frame_command s data cmd (Some []) 0"
  using assms by (simp add: frame_command_def memcpy_def)

lemma frame_command_valid:
  assumes "valid_payload payload len" and "length data = SHELLY_DIMMER_PROTO_MAX_FRAME_SIZE"
  shows "\<exists>frame. frame_command s data cmd payload (unat len)
            = Inr (frame, 7 + unat len, s\<lparr>seq := seq s + 1\<rparr>)
          \<and> take (7 + unat len) frame = frame_bytes (seq s + 1) cmd (payload_bytes payload)"
proof (cases payload)
  case None
  with assms(1) have l0: "unat len = 0" by (simp add: valid_payload_def)
  have "4 + 0 + 3 \<le> length data" and "7 \<le> length data"
    using assms(2) by (simp_all add: SHELLY_DIMMER_PROTO_MAX_FRAME_SIZE_def)
  from frame_command_Some [OF _ this(1), of "[]" s cmd] frame_command_None [OF this(2), of s cmd]
  show ?thesis
    using None l0 by (auto simp add: payload_bytes_def)
next
  case (Some p)
  with assms(1) have l: "length p = unat len" and "length p \<le> 72"
    by (simp_all add: valid_payload_def)
  then have "4 + unat len + 3 \<le> length data"
    using assms(2) by (simp add: SHELLY_DIMMER_PROTO_MAX_FRAME_SIZE_def)
  from frame_command_Some [OF l this, of s cmd]
  show ?thesis
    using Some by (auto simp add: payload_bytes_def)
qed

lemma frame_bytes_switch:
  "frame_bytes 1 SHELLY_DIMMER_PROTO_CMD_SWITCH [0xE8, 0x03]
     = [0x01, 0x01, 0x01, 0x02, 0xE8, 0x03, 0x00, 0xEF, 0x04]"
  by (simp add: frame_bytes_def shelly_dimmer_checksum_def SHELLY_DIMMER_PROTO_CMD_SWITCH_def
      SHELLY_DIMMER_PROTO_START_BYTE_def SHELLY_DIMMER_PROTO_END_BYTE_def)

text \<open>
  Claim C2. With the sequence counter at 0, framing a SWITCH command with the payload
  \<open>E8 03\<close> writes the nine bytes \<open>01 01 01 02 E8 03 00 EF 04\<close>: the start byte, the
  incremented sequence number, the command, the length, the payload, the checksum
  \<open>0x00EF\<close> high byte first, and the end byte. The frame array is the caller's, of
  \<open>SHELLY_DIMMER_PROTO_MAX_FRAME_SIZE\<close> bytes with any contents.
\<close>

theorem encode_switch_example:
  assumes "seq s = 0" and "length data = SHELLY_DIMMER_PROTO_MAX_FRAME_SIZE"
  shows "\<exists>frame. frame_command s data SHELLY_DIMMER_PROTO_CMD_SWITCH (Some [0xE8, 0x03]) 2
                  = Inr (frame, 9, s\<lparr>seq := 1\<rparr>)
               \<and> take 9 frame = [0x01, 0x01, 0x01, 0x02, 0xE8, 0x03, 0x00, 0xEF, 0x04]"
proof -
  have "4 + 2 + 3 \<le> length data"
    using assms(2) by (simp add: SHELLY_DIMMER_PROTO_MAX_FRAME_SIZE_def)
  from frame_command_Some [OF _ this, of "[0xE8, 0x03]" s SHELLY_DIMMER_PROTO_CMD_SWITCH]
  show ?thesis
    using assms(1) by (auto simp add: frame_bytes_switch)
qed

theorem encode_switch_example_witness:
  "\<exists>frame. frame_command (blank_driver 79) (replicate 79 0) SHELLY_DIMMER_PROTO_CMD_SWITCH
              (Some [0xE8, 0x03]) 2 = Inr (frame, 9, (blank_driver 79)\<lparr>seq := 1\<rparr>)
            \<and> take 9 frame = [0x01, 0x01, 0x01, 0x02, 0xE8, 0x03, 0x00, 0xEF, 0x04]"
  using encode_switch_example [of "blank_driver 79" "replicate 79 0"]
  by (simp add: blank_driver_def SHELLY_DIMMER_PROTO_MAX_FRAME_SIZE_def)

section \<open>Receiving a frame\<close>

lemma unat_of_nat_u8: "k < 256 \<Longrightarrow> unat (of_nat k :: u8) = k"
  by (simp add: unsigned_of_nat take_bit_eq_mod)

lemma take_Suc_update: "k < length xs \<Longrightarrow> take (Suc k) (xs[k := c]) = take k xs @ [c]"
  by (simp add: take_Suc_conv_app_nth)

lemma frame_bytes_length: "length (frame_bytes q cmd p) = 7 + length p"
  by (simp add: frame_bytes_def Let_def)

lemma frame_bytes_header:
  "frame_bytes q cmd p ! 0 = SHELLY_DIMMER_PROTO_START_BYTE"
  "frame_bytes q cmd p ! 1 = q"
  "frame_bytes q cmd p ! 2 = cmd"
  "frame_bytes q cmd p ! 3 = of_nat (length p)"
  by (simp_all add: frame_bytes_def Let_def numeral_2_eq_2 numeral_3_eq_3)

lemma frame_bytes_body:
  "take (3 + length p) (drop 1 (frame_bytes q cmd p)) = [q, cmd, of_nat (length p)] @ p"
  "take (length p) (drop 4 (frame_bytes q cmd p)) = p"
  by (simp_all add: frame_bytes_def Let_def numeral_3_eq_3)

lemma frame_bytes_trailer:
  "frame_bytes q cmd p ! (4 + length p) =
     ucast (drop_bit 8 (shelly_dimmer_checksum ([q, cmd, of_nat (length p)] @ p)))"
  "frame_bytes q cmd p ! (5 + length p) =
     ucast (shelly_dimmer_checksum ([q, cmd, of_nat (length p)] @ p) AND 0xff)"
  "frame_bytes q cmd p ! (6 + length p) = SHELLY_DIMMER_PROTO_END_BYTE"
proof -
  have split: "frame_bytes q cmd p = ([SHELLY_DIMMER_PROTO_START_BYTE, q, cmd, of_nat (length p)] @ p) @
      [ucast (drop_bit 8 (shelly_dimmer_checksum ([q, cmd, of_nat (length p)] @ p))),
       ucast (shelly_dimmer_checksum ([q, cmd, of_nat (length p)] @ p) AND 0xff),
       SHELLY_DIMMER_PROTO_END_BYTE]"
    by (simp add: frame_bytes_def Let_def)
  have l: "length ([SHELLY_DIMMER_PROTO_START_BYTE, q, cmd, of_nat (length p)] @ p) = 4 + length p"
    by simp
  show "frame_bytes q cmd p ! (4 + length p) =
     ucast (drop_bit 8 (shelly_dimmer_checksum ([q, cmd, of_nat (length p)] @ p)))"
    unfolding split by (subst nth_append) (simp only: l, simp)
  show "frame_bytes q cmd p ! (5 + length p) =
     ucast (shelly_dimmer_checksum ([q, cmd, of_nat (length p)] @ p) AND 0xff)"
    unfolding split by (subst nth_append) (simp only: l, simp)
  show "frame_bytes q cmd p ! (6 + length p) = SHELLY_DIMMER_PROTO_END_BYTE"
    unfolding split by (subst nth_append) (simp only: l, simp add: numeral_2_eq_2)
qed


lemma take_eq_nth: "take n xs = take n ys \<Longrightarrow> i < n \<Longrightarrow> xs ! i = ys ! i"
  by (metis nth_take)

lemma take_eq_le: "take n xs = take n ys \<Longrightarrow> m \<le> n \<Longrightarrow> take m xs = take m ys"
  by (metis min.absorb1 take_take)

lemma handle_byte_frame:
  assumes len: "length p \<le> 72" and bsz: "79 \<le> bsz"
    and pos: "buffer_pos r1 = of_nat k" and k: "k \<le> 6 + length p"
    and buf: "take (Suc k) (buffer r1) = take (Suc k) (frame_bytes q cmd p)"
  shows "handle_byte bsz r1 (frame_bytes q cmd p ! k) = (if k = 6 + length p then 0 else 1)"
proof -
  let ?F = "frame_bytes q cmd p"
  let ?cs = "shelly_dimmer_checksum ([q, cmd, of_nat (length p)] @ p)"
  have k256: "k < 256" using k len by simp
  have upos: "unat (buffer_pos r1) = k"
    using k256 by (simp add: pos unat_of_nat_u8)
  show ?thesis
  proof (cases "k < 4")
    case True
    then consider "k = 0" | "0 < k" "k < 4" by linarith
    then show ?thesis
    proof cases
      case 1
      then show ?thesis
        by (simp add: handle_byte_def pos frame_bytes_header)
    next
      case 2
      have "buffer_pos r1 \<noteq> 0" using 2 upos by auto
      moreover have "buffer_pos r1 < 4" using 2 upos by (simp add: word_less_nat_alt)
      ultimately show ?thesis using 2 by (simp add: handle_byte_def Let_def)
    qed
  next
    case False
    have nz: "buffer_pos r1 \<noteq> 0" using False upos by auto
    have n4: "\<not> buffer_pos r1 < 4" using False upos by (simp add: word_less_nat_alt)
    have b3: "buffer r1 ! 3 = of_nat (length p)"
      using take_eq_nth [OF buf, of 3] False by (simp add: frame_bytes_header)
    have ulen: "unat (buffer r1 ! 3) = length p"
      using len by (simp add: b3 unat_of_nat_u8)
    have fit: "\<not> bsz < 4 + length p + 3" using len bsz by simp
    consider "k < 4 + length p + 1" | "k = 4 + length p + 1" | "k = 4 + length p + 2"
      using k by linarith
    then show ?thesis
    proof cases
      case 1
      then show ?thesis
        using nz n4 fit by (simp add: handle_byte_def Let_def ulen upos)
    next
      case 2
      have hi: "buffer r1 ! (k - 1) = ucast (drop_bit 8 ?cs)"
        using take_eq_nth [OF buf, of "4 + length p"] 2 by (simp add: frame_bytes_trailer)
      have lo: "?F ! k = ucast (?cs AND 0xff)"
        using 2 frame_bytes_trailer(2) [of q cmd p] by (simp add: add.commute)
      have "take (4 + length p) (buffer r1) = take (4 + length p) ?F"
        using take_eq_le [OF buf, of "4 + length p"] 2 by simp
      then have "drop 1 (take (4 + length p) (buffer r1)) = drop 1 (take (4 + length p) ?F)"
        by simp
      then have body: "take (3 + length p) (drop 1 (buffer r1)) = [q, cmd, of_nat (length p)] @ p"
        using frame_bytes_body(1) [of p q cmd] by (simp add: drop_take)
      have "handle_byte bsz r1 (?F ! k) =
          (if (push_bit 8 (ucast (ucast (drop_bit 8 ?cs) :: u8)) OR ucast (ucast (?cs AND 0xff) :: u8) :: u16)
              \<noteq> ?cs then - 1 else 1)"
        using nz n4 fit 2 unfolding handle_byte_def Let_def ulen upos hi lo body
        by simp
      then show ?thesis using 2 by (simp add: csum_split)
    next
      case 3
      then show ?thesis
        using nz n4 fit frame_bytes_trailer(3) [of q cmd p]
        by (simp add: handle_byte_def Let_def ulen upos add.commute)
    qed
  qed
qed


lemma handle_frame_keeps:
  "buffer (snd (handle_frame s)) = buffer s"
  "buffer_pos (snd (handle_frame s)) = buffer_pos s"
  "seq (snd (handle_frame s)) = seq s"
  by (simp_all add: handle_frame_def Let_def)

lemma read_frame_step_frame:
  assumes len: "length p \<le> 72" and bsz: "79 \<le> bsz"
    and rc: "receiving bsz r (frame_bytes q cmd p) k" and k: "k < 6 + length p"
  shows "\<exists>r'. read_frame_step bsz r (frame_bytes q cmd p ! k) = Inr (1, r')
             \<and> receiving bsz r' (frame_bytes q cmd p) (Suc k)"
proof -
  let ?F = "frame_bytes q cmd p"
  define r1 where "r1 = r\<lparr>buffer := (buffer r)[k := ?F ! k]\<rparr>"
  have upos: "unat (buffer_pos r) = k"
    using rc k len by (simp add: receiving_def unat_of_nat_u8)
  have inb: "k < length (buffer r)"
    using rc k len bsz by (simp add: receiving_def)
  have kF: "k < length ?F" using k by (simp add: frame_bytes_length)
  have tk: "take (Suc k) (buffer r1) = take (Suc k) ?F"
    using rc inb kF by (simp add: r1_def receiving_def take_Suc_update take_Suc_conv_app_nth)
  have p1: "buffer_pos r1 = of_nat k"
    using rc by (simp add: r1_def receiving_def)
  have "handle_byte bsz r1 (?F ! k) = 1"
    using handle_byte_frame [OF len bsz p1 _ tk] k by simp
  then have "read_frame_step bsz r (?F ! k) = Inr (1, r1\<lparr>buffer_pos := buffer_pos r1 + 1\<rparr>)"
    using inb by (simp add: read_frame_step_def Let_def upos r1_def)
  moreover have "receiving bsz (r1\<lparr>buffer_pos := buffer_pos r1 + 1\<rparr>) ?F (Suc k)"
    using tk rc by (simp add: receiving_def r1_def)
  ultimately show ?thesis by blast
qed

lemma read_frame_step_last:
  assumes len: "length p \<le> 72" and bsz: "79 \<le> bsz"
    and rc: "receiving bsz r (frame_bytes q cmd p) k" and k: "k = 6 + length p"
  shows "\<exists>r'. read_frame_step bsz r (frame_bytes q cmd p ! k) = Inr (0, r')
             \<and> take (Suc k) (buffer r') = frame_bytes q cmd p
             \<and> buffer_pos r' = 0 \<and> length (buffer r') = bsz"
proof -
  let ?F = "frame_bytes q cmd p"
  define r1 where "r1 = r\<lparr>buffer := (buffer r)[k := ?F ! k]\<rparr>"
  have k256: "k < 256" and kb: "k < bsz" and kF: "k < length ?F" and sk: "Suc k = length ?F"
    using k len bsz by (simp_all add: frame_bytes_length)
  have upos: "unat (buffer_pos r) = k"
    using rc k256 by (simp add: receiving_def unat_of_nat_u8)
  have inb: "k < length (buffer r)"
    using rc kb by (simp add: receiving_def)
  have tk: "take (Suc k) (buffer r1) = take (Suc k) ?F"
    using rc inb kF by (simp add: r1_def receiving_def take_Suc_update take_Suc_conv_app_nth)
  have p1: "buffer_pos r1 = of_nat k"
    using rc by (simp add: r1_def receiving_def)
  have "k \<le> 6 + length p" using k by simp
  from handle_byte_frame [OF len bsz p1 this tk] k
  have "handle_byte bsz r1 (?F ! k) = 0" by simp
  then have "read_frame_step bsz r (?F ! k) = Inr (0, (snd (handle_frame r1))\<lparr>buffer_pos := 0\<rparr>)"
    using inb by (simp add: read_frame_step_def Let_def upos r1_def)
  moreover have "take (Suc k) (buffer ((snd (handle_frame r1))\<lparr>buffer_pos := 0\<rparr>)) = ?F"
    using tk by (simp add: handle_frame_keeps sk)
  moreover have "length (buffer ((snd (handle_frame r1))\<lparr>buffer_pos := 0\<rparr>)) = bsz"
    using rc by (simp add: handle_frame_keeps r1_def receiving_def)
  ultimately show ?thesis by simp
qed

lemma read_frame_frame_suffix:
  assumes len: "length p \<le> 72" and bsz: "79 \<le> bsz"
  shows "receiving bsz r (frame_bytes q cmd p) k \<Longrightarrow> n = 6 + length p - k \<Longrightarrow> k \<le> 6 + length p \<Longrightarrow>
         \<exists>r'. read_frame bsz r (drop k (frame_bytes q cmd p) @ rest) = Inr (True, r', rest)
             \<and> take (7 + length p) (buffer r') = frame_bytes q cmd p
             \<and> buffer_pos r' = 0 \<and> length (buffer r') = bsz"
proof (induction n arbitrary: r k)
  case 0
  then have k: "k = 6 + length p" by simp
  have dr: "drop k (frame_bytes q cmd p) = [frame_bytes q cmd p ! k]"
    using Cons_nth_drop_Suc [of k "frame_bytes q cmd p"] k
    by (simp add: frame_bytes_length)
  have sk: "7 + length p = Suc k" using k by simp
  from read_frame_step_last [OF len bsz 0(1) k]
  obtain r' where "read_frame_step bsz r (frame_bytes q cmd p ! k) = Inr (0, r')"
    and "take (Suc k) (buffer r') = frame_bytes q cmd p"
    and "buffer_pos r' = 0" and "length (buffer r') = bsz"
    by blast
  then show ?case unfolding sk dr by simp
next
  case (Suc n)
  then have k: "k < 6 + length p" by simp
  then have dr: "drop k (frame_bytes q cmd p) = frame_bytes q cmd p ! k # drop (Suc k) (frame_bytes q cmd p)"
    by (simp add: Cons_nth_drop_Suc frame_bytes_length)
  from read_frame_step_frame [OF len bsz Suc.prems(1) k]
  obtain r1 where st: "read_frame_step bsz r (frame_bytes q cmd p ! k) = Inr (1, r1)"
    and rc: "receiving bsz r1 (frame_bytes q cmd p) (Suc k)"
    by blast
  have "n = 6 + length p - Suc k" using Suc.prems by simp
  from Suc.IH [OF rc this] k
  obtain r' where "read_frame bsz r1 (drop (Suc k) (frame_bytes q cmd p) @ rest) = Inr (True, r', rest)"
    and "take (7 + length p) (buffer r') = frame_bytes q cmd p"
    and "buffer_pos r' = 0" and "length (buffer r') = bsz"
    by auto
  then show ?case by (simp add: dr st)
qed


lemma csum_bytes:
  "256 * unat (ucast (drop_bit 8 c) :: u8) + unat (ucast (c AND 0xff) :: u8) = unat (c :: u16)"
proof -
  have lo: "unat (ucast (c AND 0xff) :: u8) = unat c mod 256"
    unfolding ff_mask
    by (simp add: unsigned_ucast_eq take_bit_eq_mod unsigned_and_eq unat_mod_distrib
        flip: take_bit_eq_mask)
  have "unat (drop_bit 8 c) = unat c div 256"
    by (simp add: unat_drop_bit_eq drop_bit_eq_div unat_div_distrib)
  moreover have "unat c div 256 < 256"
    using unat_u16_lt [of c] by simp
  ultimately have hi: "unat (ucast (drop_bit 8 c) :: u8) = unat c div 256"
    by (simp add: unsigned_ucast_eq take_bit_eq_mod)
  show ?thesis unfolding lo hi by simp
qed

lemma unat_checksum:
  "unat (shelly_dimmer_checksum xs) = sum_list (map unat xs) mod 65536"
  by (simp add: shelly_dimmer_checksum_def unat_checksum_aux)

lemma frame_round_trip_Some:
  assumes len: "length p \<le> 72"
    and data: "length data = SHELLY_DIMMER_PROTO_MAX_FRAME_SIZE"
    and bsz: "79 \<le> bsz" and buf: "length (buffer r) = bsz" and pos: "buffer_pos r = 0"
  shows "\<exists>frame n s' r'.
       frame_command s data cmd (Some p) (length p) = Inr (frame, n, s')
     \<and> n = 4 + length p + 3
     \<and> read_frame bsz r (take n frame) = Inr (True, r', [])
     \<and> take n (buffer r') = take n frame
     \<and> buffer r' ! 2 = cmd
     \<and> unat (buffer r' ! 3) = length p
     \<and> take (length p) (drop 4 (buffer r')) = p
     \<and> 256 * unat (frame ! (4 + length p)) + unat (frame ! (5 + length p))
         = sum_list (map unat (take (3 + length p) (drop 1 frame))) mod 2 ^ 16"
proof -
  let ?q = "seq s + 1"
  let ?F = "frame_bytes ?q cmd p"
  let ?n = "7 + length p"
  let ?cs = "shelly_dimmer_checksum ([?q, cmd, of_nat (length p)] @ p)"
  have fits: "4 + length p + 3 \<le> length data"
    using len data by (simp add: SHELLY_DIMMER_PROTO_MAX_FRAME_SIZE_def)
  from frame_command_Some [OF refl fits, of s cmd]
  obtain frame where fc: "frame_command s data cmd (Some p) (length p) = Inr (frame, ?n, s\<lparr>seq := ?q\<rparr>)"
    and tf: "take ?n frame = ?F"
    by blast
  have "receiving bsz r ?F 0"
    using buf pos by (simp add: receiving_def)
  from read_frame_frame_suffix [OF len bsz this refl, of "[]"]
  obtain r' where rf: "read_frame bsz r ?F = Inr (True, r', [])"
    and tb: "take ?n (buffer r') = ?F"
    by auto
  have tfF: "take ?n frame = take ?n ?F" and tbF: "take ?n (buffer r') = take ?n ?F"
    using tf tb by (simp_all add: frame_bytes_length)
  have b2: "buffer r' ! 2 = cmd"
    using take_eq_nth [OF tbF, of 2] by (simp add: frame_bytes_header)
  have b3: "unat (buffer r' ! 3) = length p"
    using take_eq_nth [OF tbF, of 3] len by (simp add: frame_bytes_header unat_of_nat_u8)
  have "drop 4 (take ?n (buffer r')) = drop 4 ?F"
    using tb by simp
  then have "take (3 + length p) (drop 4 (buffer r')) = drop 4 ?F"
    by (simp add: drop_take)
  then have "take (length p) (take (3 + length p) (drop 4 (buffer r'))) = take (length p) (drop 4 ?F)"
    by simp
  then have pl: "take (length p) (drop 4 (buffer r')) = p"
    by (simp add: frame_bytes_body)
  have hi: "frame ! (4 + length p) = ucast (drop_bit 8 ?cs)"
    using take_eq_nth [OF tfF, of "4 + length p"] by (simp add: frame_bytes_trailer)
  have lo: "frame ! (5 + length p) = ucast (?cs AND 0xff)"
    using take_eq_nth [OF tfF, of "5 + length p"] by (simp add: frame_bytes_trailer)
  have "take (4 + length p) frame = take (4 + length p) ?F"
    using take_eq_le [OF tfF, of "4 + length p"] by simp
  then have "drop 1 (take (4 + length p) frame) = drop 1 (take (4 + length p) ?F)"
    by simp
  then have body: "take (3 + length p) (drop 1 frame) = [?q, cmd, of_nat (length p)] @ p"
    using frame_bytes_body(1) [of p ?q cmd] by (simp add: drop_take)
  have sum: "256 * unat (frame ! (4 + length p)) + unat (frame ! (5 + length p))
         = sum_list (map unat (take (3 + length p) (drop 1 frame))) mod 2 ^ 16"
    unfolding hi lo csum_bytes body unat_checksum by simp
  have "read_frame bsz r (take ?n frame) = Inr (True, r', [])"
    using rf tf by simp
  moreover have "take ?n (buffer r') = take ?n frame"
    using tf tb by simp
  moreover have "?n = 4 + length p + 3" by simp
  ultimately show ?thesis
    using fc b2 b3 pl sum by (metis (no_types, lifting))
qed

text \<open>
  Claim C1. For every command byte and every payload of at most 72 bytes (a null
  payload pointer with length 0 included), the bytes
  \<open>frame_command\<close> writes, fed to the receive state machine from position 0, are
  accepted: \<open>read_frame\<close> reports a complete frame exactly when the last byte has
  been read (nothing is left unread), and the receive buffer then holds the frame as it
  was sent, with the same command, length and payload. The two checksum bytes of the
  frame, high byte first, are the sum modulo \<open>2 ^ 16\<close> of the bytes from the sequence
  number to the last payload byte. The receive buffer has at least 79 bytes.
\<close>

theorem frame_round_trip:
  assumes ok: "valid_payload payload len"
    and data: "length data = SHELLY_DIMMER_PROTO_MAX_FRAME_SIZE"
    and bsz: "79 \<le> bsz" and buf: "length (buffer r) = bsz" and pos: "buffer_pos r = 0"
  shows "\<exists>frame n s' r'.
       frame_command s data cmd payload (unat len) = Inr (frame, n, s')
     \<and> n = 4 + unat len + 3
     \<and> read_frame bsz r (take n frame) = Inr (True, r', [])
     \<and> take n (buffer r') = take n frame
     \<and> buffer r' ! 2 = cmd
     \<and> buffer r' ! 3 = len
     \<and> take (unat len) (drop 4 (buffer r')) = payload_bytes payload
     \<and> 256 * unat (frame ! (4 + unat len)) + unat (frame ! (5 + unat len))
         = sum_list (map unat (take (3 + unat len) (drop 1 frame))) mod 2 ^ 16"
proof -
  define p where "p = payload_bytes payload"
  have lp: "length p = unat len" and p72: "length p \<le> 72"
    using ok by (auto simp add: p_def payload_bytes_def valid_payload_def split: option.splits)
  have "7 \<le> length data"
    using data by (simp add: SHELLY_DIMMER_PROTO_MAX_FRAME_SIZE_def)
  then have fc: "frame_command s data cmd payload (unat len)
                  = frame_command s data cmd (Some p) (length p)"
    using ok frame_command_None [of data s cmd]
    by (auto simp add: p_def payload_bytes_def valid_payload_def split: option.splits)
  from frame_round_trip_Some [OF p72 data bsz buf pos, of s cmd]
  obtain frame n s' r' where
    1: "frame_command s data cmd (Some p) (length p) = Inr (frame, n, s')"
    and 2: "n = 4 + length p + 3"
    and 3: "read_frame bsz r (take n frame) = Inr (True, r', [])"
    and 4: "take n (buffer r') = take n frame"
    and 5: "buffer r' ! 2 = cmd"
    and 6: "unat (buffer r' ! 3) = length p"
    and 7: "take (length p) (drop 4 (buffer r')) = p"
    and 8: "256 * unat (frame ! (4 + length p)) + unat (frame ! (5 + length p))
         = sum_list (map unat (take (3 + length p) (drop 1 frame))) mod 2 ^ 16"
    by blast
  have b3: "buffer r' ! 3 = len"
    using 6 lp by (simp add: word_unat_eq_iff)
  show ?thesis
    using 1 [folded fc] 2 [unfolded lp] 3 4 5 b3 7 [unfolded lp, unfolded p_def] 8 [unfolded lp]
    by blast
qed

theorem frame_round_trip_witness:
  "\<exists>frame n s' r'.
       frame_command (blank_driver 79) (replicate 79 0) SHELLY_DIMMER_PROTO_CMD_SETTINGS
         (Some [0xE8, 0x03, 0x02, 0x00, 0x00, 0x00, 0x64, 0x00, 0x14, 0x00])
         (unat (10 :: u8))
         = Inr (frame, n, s')
     \<and> n = 4 + unat (10 :: u8) + 3
     \<and> read_frame 79 (blank_driver 79) (take n frame) = Inr (True, r', [])
     \<and> take n (buffer r') = take n frame
     \<and> buffer r' ! 2 = SHELLY_DIMMER_PROTO_CMD_SETTINGS
     \<and> buffer r' ! 3 = 10
     \<and> take (unat (10 :: u8)) (drop 4 (buffer r'))
         = payload_bytes (Some [0xE8, 0x03, 0x02, 0x00, 0x00, 0x00, 0x64, 0x00, 0x14, 0x00])
     \<and> 256 * unat (frame ! (4 + unat (10 :: u8))) + unat (frame ! (5 + unat (10 :: u8)))
         = sum_list (map unat (take (3 + unat (10 :: u8)) (drop 1 frame))) mod 2 ^ 16"
proof -
  have 1: "valid_payload (Some [0xE8, 0x03, 0x02, 0x00, 0x00, 0x00, 0x64, 0x00, 0x14, 0x00]) 10"
    by (simp add: valid_payload_def)
  have 2: "length (replicate 79 (0 :: u8)) = SHELLY_DIMMER_PROTO_MAX_FRAME_SIZE"
    by (simp add: SHELLY_DIMMER_PROTO_MAX_FRAME_SIZE_def)
  have 3: "(79 :: nat) \<le> 79" by simp
  have 4: "length (buffer (blank_driver 79)) = 79" by (simp add: blank_driver_def)
  have 5: "buffer_pos (blank_driver 79) = 0" by (simp add: blank_driver_def)
  show ?thesis by (rule frame_round_trip [OF 1 2 3 4 5])
qed

section \<open>The parser stays inside the buffer\<close>

lemma unat_inc_le: "unat ((p :: u8) + 1) \<le> unat p + 1"
  by (simp add: unat_word_ariths)

lemma parser_inv_in_bounds:
  assumes "parser_inv bsz s"
  shows "unat (buffer_pos s) < length (buffer s)"
    and "unat (buffer_pos s) \<le> 4 + unat (buffer s ! 3) + 2"
  using assms by (auto simp add: parser_inv_def)

lemma handle_byte_more:
  assumes "handle_byte bsz s c = 1"
  shows "unat (buffer_pos s) < 4
       \<or> 4 + unat (buffer s ! 3) + 3 \<le> bsz \<and> unat (buffer_pos s) \<le> 4 + unat (buffer s ! 3) + 1"
  using assms
  by (auto simp add: handle_byte_def Let_def word_less_nat_alt split: if_splits)

lemma handle_byte_range: "handle_byte bsz s c = 0 \<or> handle_byte bsz s c = - 1 \<or> handle_byte bsz s c = 1"
  by (simp add: handle_byte_def Let_def)

lemma read_frame_step_inv:
  assumes inv: "parser_inv bsz s"
  shows "\<exists>r s'. read_frame_step bsz s c = Inr (r, s') \<and> parser_inv bsz s' \<and> seq s' = seq s"
proof -
  define s1 where "s1 = s\<lparr>buffer := (buffer s)[unat (buffer_pos s) := c]\<rparr>"
  have inb: "\<not> length (buffer s) \<le> unat (buffer_pos s)"
    using parser_inv_in_bounds(1) [OF inv] by simp
  have len1: "length (buffer s1) = bsz" and big: "5 \<le> bsz"
    using inv by (simp_all add: s1_def parser_inv_def)
  have pos1: "buffer_pos s1 = buffer_pos s" and seq1: "seq s1 = seq s"
    by (simp_all add: s1_def)
  consider (complete) "handle_byte bsz s1 c = 0" | (reset) "handle_byte bsz s1 c = - 1"
    | (more) "handle_byte bsz s1 c = 1"
    using handle_byte_range [of bsz s1 c] by blast
  then show ?thesis
  proof cases
    case complete
    then have "read_frame_step bsz s c = Inr (0, (snd (handle_frame s1))\<lparr>buffer_pos := 0\<rparr>)"
      using inb by (simp add: read_frame_step_def Let_def s1_def)
    moreover have "parser_inv bsz ((snd (handle_frame s1))\<lparr>buffer_pos := 0\<rparr>)"
      using len1 big by (simp add: parser_inv_def handle_frame_keeps)
    moreover have "seq ((snd (handle_frame s1))\<lparr>buffer_pos := 0\<rparr>) = seq s"
      by (simp add: handle_frame_keeps seq1)
    ultimately show ?thesis by blast
  next
    case reset
    then have "read_frame_step bsz s c = Inr (- 1, s1\<lparr>buffer_pos := 0\<rparr>)"
      using inb by (simp add: read_frame_step_def Let_def s1_def)
    moreover have "parser_inv bsz (s1\<lparr>buffer_pos := 0\<rparr>)"
      using len1 big by (simp add: parser_inv_def)
    ultimately show ?thesis using seq1 by auto
  next
    case more
    then have "read_frame_step bsz s c = Inr (1, s1\<lparr>buffer_pos := buffer_pos s1 + 1\<rparr>)"
      using inb by (simp add: read_frame_step_def Let_def s1_def)
    moreover have "parser_inv bsz (s1\<lparr>buffer_pos := buffer_pos s1 + 1\<rparr>)"
      using handle_byte_more [OF more] unat_inc_le [of "buffer_pos s1"] len1 big
      by (auto simp add: parser_inv_def)
    ultimately show ?thesis using seq1 by auto
  qed
qed

lemma feed_inv:
  "parser_inv bsz s \<Longrightarrow> \<exists>s'. feed bsz s cs = Inr s' \<and> parser_inv bsz s' \<and> seq s' = seq s"
proof (induction cs arbitrary: s)
  case Nil
  then show ?case by simp
next
  case (Cons c cs)
  from read_frame_step_inv [OF Cons.prems, of c]
  obtain r s1 where st: "read_frame_step bsz s c = Inr (r, s1)" and inv1: "parser_inv bsz s1"
    and sq: "seq s1 = seq s"
    by blast
  from Cons.IH [OF inv1] show ?case
    by (auto simp add: st sq)
qed

lemma handle_byte_oversize:
  assumes "\<not> buffer_pos s < 4" and "bsz < 4 + unat (buffer s ! 3) + 3"
  shows "handle_byte bsz s c = - 1"
proof -
  have "buffer_pos s \<noteq> 0" using assms(1) by auto
  then show ?thesis using assms by (simp add: handle_byte_def Let_def)
qed

text \<open>
  Claim C10. Whatever bytes arrive, the parser started at position 0 never writes
  outside the receive buffer: every byte is stored (no \<open>OutOfBounds\<close>), the position
  stays strictly below the buffer size and never exceeds \<open>4 + LEN + 2\<close>, and past the
  header the announced frame \<open>4 + LEN + 3\<close> fits the buffer, since \<open>handle_byte\<close> resets
  the parser (returns \<open>-1\<close>) whenever the announced frame exceeds the buffer. The buffer size is the parameter \<open>bsz\<close>; 79 is an instance.
\<close>

theorem parser_position_in_bounds:
  assumes "length (buffer s) = bsz" and "5 \<le> bsz" and "buffer_pos s = 0"
  shows "(\<exists>s'. feed bsz s cs = Inr s'
            \<and> length (buffer s') = bsz
            \<and> unat (buffer_pos s') < bsz
            \<and> unat (buffer_pos s') \<le> 4 + unat (buffer s' ! 3) + 2
            \<and> (4 < unat (buffer_pos s') \<longrightarrow> 4 + unat (buffer s' ! 3) + 3 \<le> bsz))
       \<and> (\<not> buffer_pos t < 4 \<and> bsz < 4 + unat (buffer t ! 3) + 3 \<longrightarrow> handle_byte bsz t c = - 1)"
proof -
  have "parser_inv bsz s"
    using assms by (simp add: parser_inv_def)
  from feed_inv [OF this, of cs]
  obtain s' where f: "feed bsz s cs = Inr s'" and inv: "parser_inv bsz s'"
    by blast
  have "length (buffer s') = bsz"
    using inv by (simp add: parser_inv_def)
  moreover have "4 < unat (buffer_pos s') \<longrightarrow> 4 + unat (buffer s' ! 3) + 3 \<le> bsz"
    using inv by (auto simp add: parser_inv_def)
  ultimately have "\<exists>s'. feed bsz s cs = Inr s'
            \<and> length (buffer s') = bsz
            \<and> unat (buffer_pos s') < bsz
            \<and> unat (buffer_pos s') \<le> 4 + unat (buffer s' ! 3) + 2
            \<and> (4 < unat (buffer_pos s') \<longrightarrow> 4 + unat (buffer s' ! 3) + 3 \<le> bsz)"
    using f parser_inv_in_bounds [OF inv] by simp
  then show ?thesis
    using handle_byte_oversize [of t bsz c] by blast
qed

theorem parser_position_in_bounds_witness:
  "(\<exists>s'. feed 79 (blank_driver 79) [0x01, 0x05, 0x10, 0xFF, 0x00, 0x01, 0x02] = Inr s'
        \<and> length (buffer s') = 79
        \<and> unat (buffer_pos s') < 79
        \<and> unat (buffer_pos s') \<le> 4 + unat (buffer s' ! 3) + 2
        \<and> (4 < unat (buffer_pos s') \<longrightarrow> 4 + unat (buffer s' ! 3) + 3 \<le> 79))
   \<and> handle_byte 79
        ((blank_driver 79)\<lparr>buffer := [0x01, 0x05, 0x10, 0xFF, 0x00] @ replicate 74 0,
                            buffer_pos := 4\<rparr>) 0x00 = - 1"
proof -
  let ?t = "(blank_driver 79)\<lparr>buffer := [0x01, 0x05, 0x10, 0xFF, 0x00] @ replicate 74 0,
                            buffer_pos := 4\<rparr>"
  have 1: "length (buffer (blank_driver 79)) = 79" and 2: "(5 :: nat) \<le> 79"
    and 3: "buffer_pos (blank_driver 79) = 0"
    by (simp_all add: blank_driver_def)
  have 4: "\<not> buffer_pos ?t < 4 \<and> 79 < 4 + unat (buffer ?t ! 3) + 3"
    by simp
  from parser_position_in_bounds
    [OF 1 2 3, where cs = "[0x01, 0x05, 0x10, 0xFF, 0x00, 0x01, 0x02]" and t = ?t and c = "0x00"] 4
  show ?thesis by blast
qed

section \<open>Dispatching POLL responses\<close>

lemma decode_poll_value:
  "decode_poll ([0x01, 0x00, 0xE8, 0x03, 0x00, 0x00, 0x01, 0x00, 0x00, 0x00, 0x01, 0x00,
                0x00, 0x00, 0x01, 0x00, 0x00] @ rest)
   = \<lparr>hw_version = 1, poll_brightness = 1000, power_raw = 65536, voltage_raw = 65536,
      current_raw = 65536, fade_rate = 0\<rparr>"
  by (simp add: decode_poll_def encode_uint16_def encode_uint32_def)

lemma handle_frame_poll:
  assumes "buffer s ! 1 = seq s" and "buffer s ! 2 = SHELLY_DIMMER_PROTO_CMD_POLL"
    and "\<not> buffer s ! 3 < 16"
  shows "handle_frame s =
      (True, s\<lparr>power_sensor := publish_state
                  (scaled POWER_SCALING_FACTOR (power_raw (decode_poll (drop 4 (buffer s)))))
                  (power_sensor s),
                voltage_sensor := publish_state
                  (scaled VOLTAGE_SCALING_FACTOR (voltage_raw (decode_poll (drop 4 (buffer s)))))
                  (voltage_sensor s),
                current_sensor := publish_state
                  (scaled CURRENT_SCALING_FACTOR (current_raw (decode_poll (drop 4 (buffer s)))))
                  (current_sensor s)\<rparr>)"
  using assms by (simp add: handle_frame_def Let_def)

text \<open>
  Claim C4, as stated, fails: for the payload
  \<open>01 00 E8 03 00 00 01 00 00 00 01 00 00 00 01 00 00\<close> the three raw readings are not
  256. Bytes 4 to 7 are \<open>00 00 01 00\<close>, which read least significant byte first is
  \<open>0x00010000\<close>.
\<close>

theorem decode_poll_example_refuted:
  "decode_poll [0x01, 0x00, 0xE8, 0x03, 0x00, 0x00, 0x01, 0x00, 0x00, 0x00, 0x01, 0x00,
                0x00, 0x00, 0x01, 0x00, 0x00]
     \<noteq> \<lparr>hw_version = 1, poll_brightness = 1000, power_raw = 256,
        voltage_raw = 256, current_raw = 256, fade_rate = 0\<rparr>"
  using decode_poll_value [of "[]"] by simp

text \<open>
  Claim C4, amended. Dispatching a POLL response with that payload decodes
  \<open>hw_version = 1\<close>, \<open>brightness = 0x03E8 = 1000\<close>, \<open>fade_rate = 0\<close> and the raw power,
  voltage and current \<open>0x00010000 = 65536\<close> each; the frame is accepted and the sensors
  receive \<open>880373 / 65536\<close>, \<open>347800 / 65536\<close> and \<open>1448 / 65536\<close>. The brightness is
  \<open>(payload[3] << 8) | payload[2]\<close> and every raw reading is the 32-bit value of its
  four bytes, least significant first.
\<close>

theorem decode_poll_example:
  "decode_poll [0x01, 0x00, 0xE8, 0x03, 0x00, 0x00, 0x01, 0x00, 0x00, 0x00, 0x01, 0x00,
                0x00, 0x00, 0x01, 0x00, 0x00]
     = \<lparr>hw_version = 1, poll_brightness = 0x03E8, power_raw = 0x00010000,
        voltage_raw = 0x00010000, current_raw = 0x00010000, fade_rate = 0\<rparr>
   \<and> (0x03E8 :: u16) = 1000 \<and> (0x00010000 :: u32) = 65536
   \<and> handle_frame
         (s\<lparr>buffer := [0x01, seq s, 0x10, 0x11,
                        0x01, 0x00, 0xE8, 0x03, 0x00, 0x00, 0x01, 0x00, 0x00, 0x00, 0x01, 0x00,
                        0x00, 0x00, 0x01, 0x00, 0x00] @ rest\<rparr>)
     = (True,
        s\<lparr>buffer := [0x01, seq s, 0x10, 0x11,
                       0x01, 0x00, 0xE8, 0x03, 0x00, 0x00, 0x01, 0x00, 0x00, 0x00, 0x01, 0x00,
                       0x00, 0x00, 0x01, 0x00, 0x00] @ rest,
          power_sensor := publish_state (880373 / 65536) (power_sensor s),
          voltage_sensor := publish_state (347800 / 65536) (voltage_sensor s),
          current_sensor := publish_state (1448 / 65536) (current_sensor s)\<rparr>)"
proof -
  have dr: "drop 4 ([0x01, seq s, 0x10, 0x11,
                        0x01, 0x00, 0xE8, 0x03, 0x00, 0x00, 0x01, 0x00, 0x00, 0x00, 0x01, 0x00,
                        0x00, 0x00, 0x01, 0x00, 0x00] @ rest)
       = [0x01, 0x00, 0xE8, 0x03, 0x00, 0x00, 0x01, 0x00, 0x00, 0x00, 0x01, 0x00,
                0x00, 0x00, 0x01, 0x00, 0x00 :: u8] @ rest"
    by simp
  have hf: "handle_frame
         (s\<lparr>buffer := [0x01, seq s, 0x10, 0x11,
                        0x01, 0x00, 0xE8, 0x03, 0x00, 0x00, 0x01, 0x00, 0x00, 0x00, 0x01, 0x00,
                        0x00, 0x00, 0x01, 0x00, 0x00] @ rest\<rparr>)
     = (True,
        s\<lparr>buffer := [0x01, seq s, 0x10, 0x11,
                       0x01, 0x00, 0xE8, 0x03, 0x00, 0x00, 0x01, 0x00, 0x00, 0x00, 0x01, 0x00,
                       0x00, 0x00, 0x01, 0x00, 0x00] @ rest,
          power_sensor := publish_state (880373 / 65536) (power_sensor s),
          voltage_sensor := publish_state (347800 / 65536) (voltage_sensor s),
          current_sensor := publish_state (1448 / 65536) (current_sensor s)\<rparr>)"
    by (subst handle_frame_poll)
      (simp_all add: SHELLY_DIMMER_PROTO_CMD_POLL_def decode_poll_value [simplified]
        scaled_def POWER_SCALING_FACTOR_def VOLTAGE_SCALING_FACTOR_def
        CURRENT_SCALING_FACTOR_def)
  show ?thesis
    using decode_poll_value [of "[]"] hf by simp
qed


lemma decode_poll16:
  "decode_poll (drop 4 (buffer (poll16_driver\<lparr>buffer := poll16_frame @ replicate 56 0\<rparr>))) =
     \<lparr>hw_version = 1, poll_brightness = 1000, power_raw = 65536, voltage_raw = 65536,
      current_raw = 65536, fade_rate = 1\<rparr>"
  by (simp add: poll16_frame_def decode_poll_def encode_uint16_def encode_uint32_def)

lemma handle_frame_poll_short:
  assumes "buffer s ! 1 = seq s" and "buffer s ! 2 = SHELLY_DIMMER_PROTO_CMD_POLL"
    and "buffer s ! 3 < 16"
  shows "handle_frame s = (False, s)"
  using assms by (simp add: handle_frame_def Let_def)

text \<open>
  Claim C3 at a POLL response of payload length 16: \<open>handle_frame\<close> does not reject
  it. The length check lets 16 through, the decoder reads \<open>payload[16]\<close>, which is the
  first checksum byte, and the three sensors are published.
\<close>

theorem poll_len16_published:
  "unat (poll16_frame ! 3) = 16
   \<and> handle_frame (poll16_driver\<lparr>buffer := poll16_frame @ replicate 56 0\<rparr>)
     = (True,
        poll16_driver\<lparr>buffer := poll16_frame @ replicate 56 0,
               power_sensor := Some [880373 / 65536],
               voltage_sensor := Some [347800 / 65536],
               current_sensor := Some [1448 / 65536]\<rparr>)"
proof -
  let ?S = "poll16_driver\<lparr>buffer := poll16_frame @ replicate 56 0\<rparr>"
  have len: "unat (poll16_frame ! 3) = 16"
    by (simp add: poll16_frame_def)
  have 1: "buffer ?S ! 1 = seq ?S"
    by (simp add: poll16_frame_def poll16_driver_def)
  have 2: "buffer ?S ! 2 = SHELLY_DIMMER_PROTO_CMD_POLL"
    by (simp add: poll16_frame_def SHELLY_DIMMER_PROTO_CMD_POLL_def)
  have 3: "\<not> buffer ?S ! 3 < 16"
    by (simp add: poll16_frame_def)
  have "handle_frame ?S
     = (True,
        poll16_driver\<lparr>buffer := poll16_frame @ replicate 56 0,
               power_sensor := Some [880373 / 65536],
               voltage_sensor := Some [347800 / 65536],
               current_sensor := Some [1448 / 65536]\<rparr>)"
    unfolding handle_frame_poll [OF 1 2 3] decode_poll16
    by (simp add: scaled_def publish_state_def poll16_driver_def
        POWER_SCALING_FACTOR_def VOLTAGE_SCALING_FACTOR_def CURRENT_SCALING_FACTOR_def)
  with len show ?thesis by simp
qed

section \<open>Brightness conversion\<close>

lemma unat_word_of_int_u16: "0 \<le> t \<Longrightarrow> t \<le> 65535 \<Longrightarrow> unat (word_of_int t :: u16) = nat t"
  by (simp add: unsigned_of_int take_bit_eq_mod nat_mod_distrib)

lemma float_to_u16_trunc:
  assumes "0 \<le> x" and "x < 65536"
  shows "\<exists>w. float_to_u16 x = Inr w \<and> real (unat w) \<le> x \<and> x < real (unat w) + 1"
proof -
  have lo: "0 \<le> \<lfloor>x\<rfloor>" using assms(1) by simp
  have hi: "\<lfloor>x\<rfloor> \<le> 65535" using assms(2) by (simp add: floor_le_iff)
  have u: "unat (word_of_int \<lfloor>x\<rfloor> :: u16) = nat \<lfloor>x\<rfloor>"
    using lo hi by (rule unat_word_of_int_u16)
  have f: "float_to_u16 x = Inr (word_of_int \<lfloor>x\<rfloor>)"
    using assms(1) lo hi by (simp add: float_to_u16_def Let_def)
  have le: "real (nat \<lfloor>x\<rfloor>) \<le> x" and gt: "x < real (nat \<lfloor>x\<rfloor>) + 1"
    using lo by (simp_all add: of_nat_nat)
  show ?thesis
  proof (intro exI conjI)
    show "float_to_u16 x = Inr (word_of_int \<lfloor>x\<rfloor>)" by (fact f)
    show "real (unat (word_of_int \<lfloor>x\<rfloor> :: u16)) \<le> x" unfolding u by (fact le)
    show "x < real (unat (word_of_int \<lfloor>x\<rfloor> :: u16)) + 1" unfolding u by (fact gt)
  qed
qed















section \<open>The search in the calibration table\<close>

lemma calibration_pos_spec:
  "pos \<le> length tbl \<Longrightarrow>
     pos \<le> calibration_pos tbl b pos
   \<and> calibration_pos tbl b pos \<le> length tbl
   \<and> (\<forall>i. pos \<le> i \<and> i < calibration_pos tbl b pos \<longrightarrow> \<not> tbl ! i < b)
   \<and> (calibration_pos tbl b pos < length tbl \<longrightarrow> tbl ! calibration_pos tbl b pos < b)"
proof (induction tbl b pos rule: calibration_pos.induct)
  case (1 tbl b pos)
  show ?case
  proof (cases "pos < length tbl")
    case False
    then have stop: "calibration_pos tbl b pos = pos"
      by (subst calibration_pos.simps) simp
    show ?thesis unfolding stop using "1.prems" False by simp
  next
    case True
    show ?thesis
    proof (cases "tbl ! pos < b")
      case hit: True
      with True have stop: "calibration_pos tbl b pos = pos"
        by (subst calibration_pos.simps) simp
      show ?thesis unfolding stop using True hit by simp
    next
      case miss: False
      from True have "pos + 1 \<le> length tbl" by simp
      from "1.IH" [OF True miss this]
      have ih: "pos + 1 \<le> calibration_pos tbl b (pos + 1)"
        "calibration_pos tbl b (pos + 1) \<le> length tbl"
        "\<forall>i. pos + 1 \<le> i \<and> i < calibration_pos tbl b (pos + 1) \<longrightarrow> \<not> tbl ! i < b"
        "calibration_pos tbl b (pos + 1) < length tbl \<longrightarrow> tbl ! calibration_pos tbl b (pos + 1) < b"
        by blast+
      have eq: "calibration_pos tbl b pos = calibration_pos tbl b (pos + 1)"
        using True miss by (subst calibration_pos.simps) simp
      have "\<forall>i. pos \<le> i \<and> i < calibration_pos tbl b (pos + 1) \<longrightarrow> \<not> tbl ! i < b"
      proof (intro allI impI)
        fix i assume i: "pos \<le> i \<and> i < calibration_pos tbl b (pos + 1)"
        show "\<not> tbl ! i < b"
        proof (cases "i = pos")
          case True
          with miss show ?thesis by simp
        next
          case False
          with i have "pos + 1 \<le> i" by simp
          with i ih(3) show ?thesis by blast
        qed
      qed
      with ih show ?thesis unfolding eq by simp
    qed
  qed
qed

section \<open>Finalising the calibration\<close>





section \<open>Sending a command\<close>

lemma read_frame_inv:
  "parser_inv bsz s \<Longrightarrow>
     \<exists>got s' rest. read_frame bsz s cs = Inr (got, s', rest) \<and> parser_inv bsz s' \<and> seq s' = seq s"
proof (induction cs arbitrary: s)
  case Nil
  then show ?case by auto
next
  case (Cons c cs)
  from read_frame_step_inv [OF Cons.prems, of c]
  obtain r s1 where st: "read_frame_step bsz s c = Inr (r, s1)" and inv1: "parser_inv bsz s1"
    and sq: "seq s1 = seq s"
    by blast
  show ?case
  proof (cases "r = 0")
    case True
    with st inv1 sq show ?thesis by auto
  next
    case False
    with Cons.IH [OF inv1] st sq show ?thesis by auto
  qed
qed

lemma ack_wait_inv:
  "parser_inv bsz s \<Longrightarrow>
     \<exists>acked s' e'. ack_wait bsz tx_time s e = Inr (acked, s', e')
        \<and> parser_inv bsz s' \<and> seq s' = seq s \<and> tx e' = tx e"
proof (induction bsz tx_time s e rule: ack_wait.induct)
  case (1 bsz tx_time s e)
  show ?case
  proof (cases "now e - tx_time < ucast SHELLY_DIMMER_ACK_TIMEOUT")
    case False
    then have "ack_wait bsz tx_time s e = Inr (False, s, e)"
      by (subst ack_wait.simps) simp
    with "1.prems" show ?thesis by auto
  next
    case True
    from read_frame_inv [OF "1.prems", of "rx e"]
    obtain got s1 rx1 where rf: "read_frame bsz s (rx e) = Inr (got, s1, rx1)"
      and inv1: "parser_inv bsz s1" and sq: "seq s1 = seq s"
      by blast
    show ?thesis
    proof (cases got)
      case True
      with \<open>now e - tx_time < ucast SHELLY_DIMMER_ACK_TIMEOUT\<close> rf
      have "ack_wait bsz tx_time s e = Inr (True, s1, e\<lparr>rx := rx1\<rparr>)"
        by (subst ack_wait.simps) simp
      with inv1 sq show ?thesis by auto
    next
      case False
      with \<open>now e - tx_time < ucast SHELLY_DIMMER_ACK_TIMEOUT\<close> rf
      have eq: "ack_wait bsz tx_time s e = ack_wait bsz tx_time s1 (delay_1ms (e\<lparr>rx := rx1\<rparr>))"
        by (subst ack_wait.simps) simp
      from "1.IH" [OF \<open>now e - tx_time < ucast SHELLY_DIMMER_ACK_TIMEOUT\<close> rf refl refl False inv1]
      obtain acked s' e' where
        "ack_wait bsz tx_time s1 (delay_1ms (e\<lparr>rx := rx1\<rparr>)) = Inr (acked, s', e')"
        and "parser_inv bsz s'" and "seq s' = seq s1"
        and "tx e' = tx (delay_1ms (e\<lparr>rx := rx1\<rparr>))"
        by blast
      then show ?thesis
        unfolding eq using sq by (simp add: delay_1ms_def)
    qed
  qed
qed

lemma send_attempts_inv:
  "parser_inv bsz s \<Longrightarrow>
     \<exists>acked s' e' n. send_attempts bsz k frame s e = Inr (acked, s', e')
        \<and> parser_inv bsz s' \<and> seq s' = seq s
        \<and> tx e' = tx e @ concat (replicate n [Write frame, Flush])
        \<and> n \<le> k \<and> (0 < k \<longrightarrow> 0 < n) \<and> (\<not> acked \<longrightarrow> n = k)"
proof (induction k arbitrary: s e)
  case 0
  then show ?case by auto
next
  case (Suc k)
  let ?e1 = "e\<lparr>tx := tx e @ [Write frame, Flush]\<rparr>"
  from ack_wait_inv [OF Suc.prems, of "now ?e1" ?e1]
  obtain acked s1 e2 where aw: "ack_wait bsz (now ?e1) s ?e1 = Inr (acked, s1, e2)"
    and inv1: "parser_inv bsz s1" and sq: "seq s1 = seq s" and tx2: "tx e2 = tx ?e1"
    by blast
  show ?case
  proof (cases acked)
    case True
    with aw have "send_attempts bsz (Suc k) frame s e = Inr (True, s1, e2)"
      by (simp add: Let_def)
    moreover have "tx e2 = tx e @ concat (replicate 1 [Write frame, Flush])"
      using tx2 by simp
    ultimately show ?thesis
      using inv1 sq by (intro exI [of _ True] exI [of _ s1] exI [of _ e2] exI [of _ 1]) simp
  next
    case False
    with aw have eq: "send_attempts bsz (Suc k) frame s e = send_attempts bsz k frame s1 e2"
      by (simp add: Let_def)
    from Suc.IH [OF inv1, of e2]
    obtain a s' e' n where r: "send_attempts bsz k frame s1 e2 = Inr (a, s', e')"
      and i: "parser_inv bsz s'" and q: "seq s' = seq s1"
      and t: "tx e' = tx e2 @ concat (replicate n [Write frame, Flush])"
      and n: "n \<le> k" "\<not> a \<longrightarrow> n = k"
      by blast
    have "tx e' = tx e @ concat (replicate (Suc n) [Write frame, Flush])"
      using t tx2 by simp
    then show ?thesis
      unfolding eq using r i q sq n
      by (intro exI [of _ a] exI [of _ s'] exI [of _ e'] exI [of _ "Suc n"]) simp
  qed
qed

lemma send_command_seq:
  assumes inv: "parser_inv bsz s" and ok: "valid_payload payload len"
  shows "\<exists>acked s' e' n. send_command bsz junk s e cmd payload len = Inr (acked, s', e')
           \<and> seq s' = seq s + 1
           \<and> 1 \<le> n \<and> n \<le> 3 \<and> (\<not> acked \<longrightarrow> n = 3)
           \<and> tx e' = tx e @ concat (replicate n
                 [Write (frame_bytes (seq s + 1) cmd (payload_bytes payload)), Flush])
           \<and> parser_inv bsz s'"
proof -
  let ?data = "map junk [0..<SHELLY_DIMMER_PROTO_MAX_FRAME_SIZE]"
  let ?F = "frame_bytes (seq s + 1) cmd (payload_bytes payload)"
  have "length ?data = SHELLY_DIMMER_PROTO_MAX_FRAME_SIZE" by simp
  from frame_command_valid [OF ok this, of s cmd]
  obtain frame where fc: "frame_command s ?data cmd payload (unat len)
            = Inr (frame, 7 + unat len, s\<lparr>seq := seq s + 1\<rparr>)"
    and tk: "take (7 + unat len) frame = ?F"
    by blast
  have eq: "send_command bsz junk s e cmd payload len
      = send_attempts bsz 3 ?F (s\<lparr>seq := seq s + 1\<rparr>) e"
    by (simp add: send_command_def Let_def fc tk SHELLY_DIMMER_MAX_RETRIES_def)
  have "parser_inv bsz (s\<lparr>seq := seq s + 1\<rparr>)"
    using inv by (simp add: parser_inv_def)
  from send_attempts_inv [OF this, of 3 ?F e]
  obtain acked s' e' n where "send_attempts bsz 3 ?F (s\<lparr>seq := seq s + 1\<rparr>) e = Inr (acked, s', e')"
    and "parser_inv bsz s'" and "seq s' = seq s + 1"
    and "tx e' = tx e @ concat (replicate n [Write ?F, Flush])"
    and "n \<le> 3" and "0 < n" and "\<not> acked \<longrightarrow> n = 3"
    by auto
  then show ?thesis
    unfolding eq
    by (intro exI [of _ acked] exI [of _ s'] exI [of _ e'] exI [of _ n]) simp
qed

lemma read_frame_stale_ack:
  "read_frame 79 ((blank_driver 79)\<lparr>seq := 1\<rparr>) stale_ack
     = Inr (True, (blank_driver 79)\<lparr>seq := 1, buffer := stale_ack @ replicate 71 0\<rparr>, [])"
  by code_simp


text \<open>
  Claim C7 at a UART that delivers one well-formed frame with a valid checksum and the
  wrong sequence number. The driver, with its sequence counter at 0, sends POLL (the
  frame carries the sequence number 1); one millisecond later the stale frame with the
  sequence number 7 arrives. \<open>send_command\<close> returns true after a single write: the frame
  is complete, so \<open>read_frame\<close> returns true, although \<open>handle_frame\<close> rejects it.
\<close>

theorem stale_frame_acknowledged:
  "send_command 79 (\<lambda>_. 0) (blank_driver 79) (quiet_env\<lparr>wire := [stale_ack]\<rparr>)
       SHELLY_DIMMER_PROTO_CMD_POLL None 0
     = Inr (True,
            (blank_driver 79)\<lparr>seq := 1, buffer := stale_ack @ replicate 71 0\<rparr>,
            \<lparr>rx = [], wire = [],
             tx = [Write [0x01, 0x01, 0x10, 0x00, 0x00, 0x11, 0x04], Flush], now = 1\<rparr>)
   \<and> handle_frame ((blank_driver 79)\<lparr>seq := 1, buffer := stale_ack @ replicate 71 0\<rparr>)
     = (False, (blank_driver 79)\<lparr>seq := 1, buffer := stale_ack @ replicate 71 0\<rparr>)"
  by code_simp

text \<open>
  With a UART on which nothing ever arrives, every wait lasts the full 200 ms, the frame
  is written and flushed three times and \<open>send_command\<close> returns false after 600 ms.
\<close>

lemma ack_wait_silent:
  "rx e = [] \<Longrightarrow> wire e = [] \<Longrightarrow> unat (now e - tx_time) \<le> 200 \<Longrightarrow>
     ack_wait bsz tx_time s e = Inr (False, s, e\<lparr>now := tx_time + 200\<rparr>)"
proof (induction bsz tx_time s e rule: ack_wait.induct)
  case (1 bsz tx_time s e)
  show ?case
  proof (cases "now e - tx_time < ucast SHELLY_DIMMER_ACK_TIMEOUT")
    case False
    then have "\<not> unat (now e - tx_time) < 200"
      by (simp add: SHELLY_DIMMER_ACK_TIMEOUT_def word_less_nat_alt)
    with "1.prems"(3) have "unat (now e - tx_time) = 200" by simp
    moreover have "(of_nat (unat (now e - tx_time)) :: u32) = now e - tx_time"
      by simp
    ultimately have "now e - tx_time = 200"
      by simp
    then have "now e = tx_time + 200" by (simp add: algebra_simps)
    then have "e\<lparr>now := tx_time + 200\<rparr> = e" by (cases e) simp
    moreover have "ack_wait bsz tx_time s e = Inr (False, s, e)"
      using False by (subst ack_wait.simps) simp
    ultimately show ?thesis by simp
  next
    case True
    let ?e' = "delay_1ms (e\<lparr>rx := []\<rparr>)"
    have small: "unat (now e - tx_time) < 200"
      using True by (simp add: SHELLY_DIMMER_ACK_TIMEOUT_def word_less_nat_alt)
    have rf: "read_frame bsz s (rx e) = Inr (False, s, [])"
      using "1.prems"(1) by simp
    have eq: "ack_wait bsz tx_time s e = ack_wait bsz tx_time s ?e'"
      using True rf by (subst ack_wait.simps) simp
    have e': "?e' = e\<lparr>now := now e + 1\<rparr>"
      using "1.prems"(1,2) by (cases e) (simp add: delay_1ms_def)
    have "now ?e' - tx_time = now e - tx_time + 1"
      by (simp add: e')
    moreover have "unat (now e - tx_time + 1) = unat (now e - tx_time) + 1"
      using small by (simp add: unat_word_ariths)
    ultimately have le: "unat (now ?e' - tx_time) \<le> 200"
      using small by (simp only:)
    have r: "rx ?e' = []" and w: "wire ?e' = []"
      using "1.prems"(1,2) by (simp_all add: e')
    from "1.IH" [OF True rf refl refl _ r w le]
    have "ack_wait bsz tx_time s ?e' = Inr (False, s, ?e'\<lparr>now := tx_time + 200\<rparr>)"
      by simp
    then show ?thesis
      unfolding eq by (simp add: e')
  qed
qed

lemma send_attempts_silent:
  "rx e = [] \<Longrightarrow> wire e = [] \<Longrightarrow>
     send_attempts bsz k frame s e
       = Inr (False, s, e\<lparr>tx := tx e @ concat (replicate k [Write frame, Flush]),
                           now := now e + 200 * of_nat k\<rparr>)"
proof (induction k arbitrary: e)
  case 0
  then show ?case by (cases e) simp
next
  case (Suc k)
  let ?e1 = "e\<lparr>tx := tx e @ [Write frame, Flush]\<rparr>"
  have "ack_wait bsz (now ?e1) s ?e1 = Inr (False, s, ?e1\<lparr>now := now ?e1 + 200\<rparr>)"
    using Suc.prems by (intro ack_wait_silent) simp_all
  then have "send_attempts bsz (Suc k) frame s e
      = send_attempts bsz k frame s (?e1\<lparr>now := now ?e1 + 200\<rparr>)"
    by (simp add: Let_def)
  also have "\<dots> = Inr (False, s,
      (?e1\<lparr>now := now ?e1 + 200\<rparr>)\<lparr>tx := tx (?e1\<lparr>now := now ?e1 + 200\<rparr>)
              @ concat (replicate k [Write frame, Flush]),
          now := now (?e1\<lparr>now := now ?e1 + 200\<rparr>) + 200 * of_nat k\<rparr>)"
    using Suc.prems by (intro Suc.IH) simp_all
  finally show ?case by (simp add: algebra_simps)
qed

lemma send_command_silent:
  assumes "valid_payload payload len" and "rx e = []" and "wire e = []"
  shows "send_command bsz junk s e cmd payload len
       = Inr (False, s\<lparr>seq := seq s + 1\<rparr>,
              e\<lparr>tx := tx e @ concat (replicate 3
                       [Write (frame_bytes (seq s + 1) cmd (payload_bytes payload)), Flush]),
                now := now e + 600\<rparr>)"
proof -
  let ?data = "map junk [0..<SHELLY_DIMMER_PROTO_MAX_FRAME_SIZE]"
  have "length ?data = SHELLY_DIMMER_PROTO_MAX_FRAME_SIZE" by simp
  from frame_command_valid [OF assms(1) this, of s cmd]
  obtain frame where fc: "frame_command s ?data cmd payload (unat len)
            = Inr (frame, 7 + unat len, s\<lparr>seq := seq s + 1\<rparr>)"
    and tk: "take (7 + unat len) frame = frame_bytes (seq s + 1) cmd (payload_bytes payload)"
    by blast
  show ?thesis
    using send_attempts_silent [OF assms(2,3), of bsz 3]
    by (simp add: send_command_def Let_def fc tk SHELLY_DIMMER_MAX_RETRIES_def)
qed

text \<open>
  Claim C8. Every call of \<open>send_command\<close> returns, advances the sequence counter by
  exactly one modulo 256, and writes the same frame, carrying the new sequence number,
  at every attempt (one to three of them); the next call does the same from the
  advanced counter, so the sequence numbers of successive calls increase by one modulo
  256. The payload is a null pointer with length 0 or an array of at most 72 bytes.
\<close>

theorem seq_monotone:
  assumes "parser_inv bsz s" and "valid_payload payload len" and "valid_payload payload2 len2"
  shows "\<exists>acked s' e' n.
           send_command bsz junk s e cmd payload len = Inr (acked, s', e')
         \<and> seq s' = seq s + 1
         \<and> unat (seq s') = (unat (seq s) + 1) mod 256
         \<and> 1 \<le> n \<and> n \<le> 3
         \<and> tx e' = tx e @ concat (replicate n
               [Write (frame_bytes (seq s + 1) cmd (payload_bytes payload)), Flush])
         \<and> frame_bytes (seq s + 1) cmd (payload_bytes payload) ! 1 = seq s + 1
         \<and> (\<exists>acked2 s'' e'' m.
               send_command bsz junk2 s' e2 cmd2 payload2 len2 = Inr (acked2, s'', e'')
             \<and> seq s'' = seq s' + 1
             \<and> 1 \<le> m \<and> m \<le> 3
             \<and> tx e'' = tx e2 @ concat (replicate m
                   [Write (frame_bytes (seq s' + 1) cmd2 (payload_bytes payload2)), Flush])
             \<and> frame_bytes (seq s' + 1) cmd2 (payload_bytes payload2) ! 1 = seq s' + 1)"
proof -
  from send_command_seq [OF assms(1,2), of junk e cmd]
  obtain acked s' e' n where 1: "send_command bsz junk s e cmd payload len = Inr (acked, s', e')"
    and 2: "seq s' = seq s + 1" and 3: "1 \<le> n" "n \<le> 3"
    and 4: "tx e' = tx e @ concat (replicate n
               [Write (frame_bytes (seq s + 1) cmd (payload_bytes payload)), Flush])"
    and inv': "parser_inv bsz s'"
    by blast
  from send_command_seq [OF inv' assms(3), of junk2 e2 cmd2]
  obtain acked2 s'' e'' m where
    5: "send_command bsz junk2 s' e2 cmd2 payload2 len2 = Inr (acked2, s'', e'')"
    and 6: "seq s'' = seq s' + 1" and 7: "1 \<le> m" "m \<le> 3"
    and 8: "tx e'' = tx e2 @ concat (replicate m
                   [Write (frame_bytes (seq s' + 1) cmd2 (payload_bytes payload2)), Flush])"
    by blast
  have 9: "unat (seq s') = (unat (seq s) + 1) mod 256"
    unfolding 2 by (simp add: unat_word_ariths)
  have second: "\<exists>acked2 s'' e'' m.
               send_command bsz junk2 s' e2 cmd2 payload2 len2 = Inr (acked2, s'', e'')
             \<and> seq s'' = seq s' + 1
             \<and> 1 \<le> m \<and> m \<le> 3
             \<and> tx e'' = tx e2 @ concat (replicate m
                   [Write (frame_bytes (seq s' + 1) cmd2 (payload_bytes payload2)), Flush])
             \<and> frame_bytes (seq s' + 1) cmd2 (payload_bytes payload2) ! 1 = seq s' + 1"
    using 5 6 7 8 frame_bytes_header(2) by blast
  show ?thesis
    using 1 2 9 3 4 second frame_bytes_header(2) by blast
qed

theorem seq_monotone_witness:
  "\<exists>acked s' e' n.
           send_command 79 (\<lambda>_. 0) ((blank_driver 79)\<lparr>seq := 255\<rparr>) quiet_env
             SHELLY_DIMMER_PROTO_CMD_POLL None 0 = Inr (acked, s', e')
         \<and> seq s' = seq ((blank_driver 79)\<lparr>seq := 255\<rparr>) + 1
         \<and> unat (seq s') = (unat (seq ((blank_driver 79)\<lparr>seq := 255\<rparr>)) + 1) mod 256
         \<and> 1 \<le> n \<and> n \<le> 3
         \<and> tx e' = tx quiet_env @ concat (replicate n
               [Write (frame_bytes (seq ((blank_driver 79)\<lparr>seq := 255\<rparr>) + 1)
                  SHELLY_DIMMER_PROTO_CMD_POLL (payload_bytes None)), Flush])
         \<and> frame_bytes (seq ((blank_driver 79)\<lparr>seq := 255\<rparr>) + 1)
               SHELLY_DIMMER_PROTO_CMD_POLL (payload_bytes None) ! 1
             = seq ((blank_driver 79)\<lparr>seq := 255\<rparr>) + 1
         \<and> (\<exists>acked2 s'' e'' m.
               send_command 79 (\<lambda>_. 0) s' quiet_env SHELLY_DIMMER_PROTO_CMD_SWITCH
                 (Some [0xE8, 0x03]) 2 = Inr (acked2, s'', e'')
             \<and> seq s'' = seq s' + 1
             \<and> 1 \<le> m \<and> m \<le> 3
             \<and> tx e'' = tx quiet_env @ concat (replicate m
                   [Write (frame_bytes (seq s' + 1) SHELLY_DIMMER_PROTO_CMD_SWITCH
                      (payload_bytes (Some [0xE8, 0x03]))), Flush])
             \<and> frame_bytes (seq s' + 1) SHELLY_DIMMER_PROTO_CMD_SWITCH
                   (payload_bytes (Some [0xE8, 0x03])) ! 1 = seq s' + 1)"
proof -
  have 1: "parser_inv 79 ((blank_driver 79)\<lparr>seq := 255\<rparr>)"
    by (simp add: parser_inv_def blank_driver_def)
  have 2: "valid_payload None 0"
    by (simp add: valid_payload_def)
  have 3: "valid_payload (Some [0xE8, 0x03]) 2"
    by (simp add: valid_payload_def)
  show ?thesis by (rule seq_monotone [OF 1 2 3])
qed

end
